theory Spec2Isabelle
  imports Main
begin

section \<open>Python string operations used by the extractor\<close>

text \<open>
  Python \<open>str\<close> values are modelled as \<open>string\<close>, one \<open>char\<close> for each code point
  (code points below 256), so that \<open>length\<close> is Python's \<open>len\<close>. Only the operations
  the source calls are defined: \<open>str.startswith\<close>, \<open>str.find\<close> (one argument, no
  start index), \<open>str.lower\<close>, \<open>str.strip\<close> and the decimal rendering of a counter
  inside an f-string.
\<close>

definition startswith :: "string \<Rightarrow> string \<Rightarrow> bool" where
  "startswith s p = (take (length p) s = p)"

text \<open>
  \<open>find_at i s sub\<close> scans \<open>s\<close>, whose first character sits at index \<open>i\<close> of the
  whole text, and yields the lowest index at which \<open>sub\<close> starts, or \<open>-1\<close>.
\<close>

fun find_at :: "nat \<Rightarrow> string \<Rightarrow> string \<Rightarrow> int" where
  "find_at i [] sub = (if sub = [] then int i else - 1)"
| "find_at i (c # cs) sub =
     (if startswith (c # cs) sub then int i else find_at (Suc i) cs sub)"

definition str_find :: "string \<Rightarrow> string \<Rightarrow> int" where
  "str_find s sub = find_at 0 s sub"

definition lower_char :: "char \<Rightarrow> char" where
  "lower_char c =
     (let n = (of_char c :: nat)
      in if (65 \<le> n \<and> n \<le> 90) \<or> (192 \<le> n \<and> n \<le> 222 \<and> n \<noteq> 215)
         then char_of (n + 32) else c)"

definition str_lower :: "string \<Rightarrow> string" where
  "str_lower s = map lower_char s"

definition is_space :: "char \<Rightarrow> bool" where
  "is_space c =
     (let n = (of_char c :: nat)
      in (9 \<le> n \<and> n \<le> 13) \<or> (28 \<le> n \<and> n \<le> 32) \<or> n = 133 \<or> n = 160)"

definition str_strip :: "string \<Rightarrow> string" where
  "str_strip s = rev (dropWhile is_space (rev (dropWhile is_space s)))"

definition digit_char :: "nat \<Rightarrow> char" where
  "digit_char d = ''0123456789'' ! d"

fun str_nat :: "nat \<Rightarrow> string" where
  "str_nat n =
     (if n < 10 then [digit_char n] else str_nat (n div 10) @ [digit_char (n mod 10)])"

declare str_nat.simps [simp del]

section \<open>Data model of \<open>hydraedge.extractor.tuple_extractor\<close>\<close>

text \<open>
  The pydantic models \<open>Node\<close>, \<open>Edge\<close> and \<open>Payload\<close>. The field \<open>id\<close> is named
  \<open>ident\<close> here. The class \<open>Node\<close> gives defaults to three fields: \<open>ntype = "spo"\<close>,
  \<open>char_start = 0\<close> and \<open>char_end = 0\<close>; \<open>eid_set\<close> defaults to the empty list.
\<close>

record Node =
  ident :: string
  filler :: string
  alias_key :: string
  roles :: "string list"
  ntype :: string
  eid_set :: "string list"
  char_start :: int
  char_end :: int

record Edge =
  source :: string
  target :: string
  kind :: string

record Hull =
  hull_eid :: "string option"
  members :: "string list"

record Payload =
  version :: string
  sentence :: string
  nodes :: "Node list"
  edges :: "Edge list"
  layouts :: "(string \<times> Hull list) list"
  chv :: "int list"

text \<open>
  A frame as \<open>to_json\<close> reads it: the dictionary returned by \<open>_frames\<close> with the keys
  \<open>verb\<close>, \<open>words\<close> and \<open>tags\<close>.
\<close>

record Frame =
  verb :: string
  words :: "string list"
  tags :: "string list"

text \<open>
  The collaborators that \<open>to_json\<close> imports from outside the module are taken as
  parameters: \<open>md5_hexdigest s\<close> stands for
  \<open>hashlib.md5(s.encode()).hexdigest()\<close>, \<open>resolve_alias\<close> for the alias resolver,
  \<open>filler_vec_from_token\<close> and \<open>encode_chv\<close> for the encoder (the latter together
  with \<open>.astype(int).tolist()\<close>).
\<close>

record Env =
  md5_hexdigest :: "string \<Rightarrow> string"
  resolve_alias :: "string \<Rightarrow> string"
  filler_vec_from_token :: "string \<Rightarrow> int list"
  encode_chv :: "(string \<times> int list) list \<Rightarrow> int list"

section \<open>Role mapping\<close>

definition propbank_to_role :: "string \<Rightarrow> string option" where
  "propbank_to_role tag =
     (if tag = ''B-ARG0'' then Some ''Subject''
      else if tag \<in> set [''B-ARG1'', ''B-ARG2''] then Some ''Object''
      else if startswith tag ''B-ARGM-LOC'' then Some ''IndirectObject''
      else if startswith tag ''B-ARGM-MNR'' then Some ''Attr''
      else None)"

section \<open>Graph assembly: \<open>to_json\<close>\<close>

text \<open>
  The node appended for a span \<open>w\<close> with one role under event id \<open>eid\<close>. The
  Predicate node and the argument nodes are built by the same call: \<open>id\<close>,
  \<open>filler\<close>, \<open>alias_key\<close>, \<open>roles\<close>, \<open>eid_set\<close>, \<open>char_start\<close> and \<open>char_end\<close>
  are passed, and \<open>ntype\<close> keeps its default.
\<close>

definition span_node :: "Env \<Rightarrow> string \<Rightarrow> string \<Rightarrow> string \<Rightarrow> string \<Rightarrow> Node" where
  "span_node env sent w role eid =
     \<lparr>ident = ''spo:'' @ w @ ''@'' @ eid, filler = w, alias_key = resolve_alias env w,
      roles = [role], ntype = ''spo'', eid_set = [eid],
      char_start = str_find sent w,
      char_end = str_find sent w + int (length w)\<rparr>"

text \<open>
  \<open>{"Subject": "S-P", "Object": "P-O"}.get(role, "attr")\<close>
\<close>

definition edge_kind :: "string \<Rightarrow> string" where
  "edge_kind role =
     (case map_of [(''Subject'', ''S-P''), (''Object'', ''P-O'')] role of
        Some k \<Rightarrow> k
      | None \<Rightarrow> ''attr'')"

text \<open>
  The body of the inner loop \<open>for w, tag in zip(fr["words"], fr["tags"])\<close>, on the
  state \<open>(nodes, edges, tuples)\<close>.
\<close>

fun arg_step ::
  "Env \<Rightarrow> string \<Rightarrow> string \<Rightarrow> string \<Rightarrow> string \<times> string \<Rightarrow>
   Node list \<times> Edge list \<times> (string \<times> int list) list \<Rightarrow>
   Node list \<times> Edge list \<times> (string \<times> int list) list" where
  "arg_step env sent eid pred_id (w, tag) (ns, es, ts) =
     (case propbank_to_role tag of
        None \<Rightarrow> (ns, es, ts)
      | Some role \<Rightarrow>
          (let nid = ''spo:'' @ w @ ''@'' @ eid;
               ns' = (if nid \<notin> set (map ident ns)
                      then ns @ [span_node env sent w role eid] else ns);
               k = edge_kind role;
               e = \<lparr>source = (if k = ''P-O'' then pred_id else nid),
                    target = (if k = ''P-O'' then nid else pred_id),
                    kind = k\<rparr>
           in (ns', es @ [e], ts @ [(role, filler_vec_from_token env w)])))"

text \<open>
  The body of the outer loop \<open>for fr in frames\<close>, on the state
  \<open>(nodes, edges, tuples, eid_counter)\<close>.
\<close>

fun frame_step ::
  "Env \<Rightarrow> string \<Rightarrow> Frame \<Rightarrow>
   Node list \<times> Edge list \<times> (string \<times> int list) list \<times> nat \<Rightarrow>
   Node list \<times> Edge list \<times> (string \<times> int list) list \<times> nat" where
  "frame_step env sent fr (ns, es, ts, eid_counter) =
     (let eid = ''e'' @ str_nat eid_counter;
          pred = verb fr;
          pred_id = ''spo:'' @ pred @ ''@'' @ eid;
          ns1 = ns @ [span_node env sent pred ''Predicate'' eid]
      in case fold (arg_step env sent eid pred_id) (zip (words fr) (tags fr)) (ns1, es, ts) of
           (ns2, es2, ts2) \<Rightarrow> (ns2, es2, ts2, eid_counter + 1))"

text \<open>
  The node of the branch \<open>if not frames\<close>: the call passes \<open>id\<close>, \<open>filler\<close>,
  \<open>alias_key\<close>, \<open>roles\<close> and \<open>ntype\<close>; \<open>eid_set\<close>, \<open>char_start\<close> and \<open>char_end\<close>
  keep the defaults of the class.
\<close>

definition stub_node :: "Env \<Rightarrow> string \<Rightarrow> Node" where
  "stub_node env sent =
     \<lparr>ident = ''stub:'' @ take 6 (md5_hexdigest env sent), filler = sent,
      alias_key = str_lower sent, roles = [''Sentence''], ntype = ''SentenceStub'',
      eid_set = [], char_start = 0, char_end = 0\<rparr>"

text \<open>
  \<open>to_json(sentence, meta)\<close>; \<open>frames\<close> is the list that \<open>_frames(sentence)\<close> returned
  (the SRL predictor or the regex fallback). The argument \<open>meta\<close> is never read by
  the source and is left out.
\<close>

definition to_json :: "Env \<Rightarrow> string \<Rightarrow> Frame list \<Rightarrow> Payload" where
  "to_json env sent frames =
     (case (if frames = [] then ([stub_node env sent], [], [], 1)
            else fold (frame_step env sent) frames ([], [], [], 1)) of
        (ns, es, ts, eid_counter) \<Rightarrow>
          \<lparr>version = ''2.4'', sentence = sent, nodes = ns, edges = es,
           layouts = [(''hulls'', [])],
           chv = (if ts \<noteq> [] then encode_chv env ts else replicate 4096 1)\<rparr>)"


section \<open>Derived notions used to state properties of \<open>to_json\<close>\<close>

text \<open>The nodes of a payload whose \<open>ntype\<close> is \<open>chv\<close>.\<close>

definition chv_nodes :: "Payload \<Rightarrow> Node list" where
  "chv_nodes p = filter (\<lambda>n. ntype n = ''chv'') (nodes p)"

text \<open>A node carries the single role \<open>Predicate\<close>.\<close>

definition predicate_node :: "Node \<Rightarrow> bool" where
  "predicate_node n = (roles n = [''Predicate''])"

text \<open>What the inner loop can append to the node list: argument nodes of the frame.\<close>

definition arg_node :: "Env \<Rightarrow> string \<Rightarrow> string \<Rightarrow> Node \<Rightarrow> bool" where
  "arg_node env sent eid n =
     (\<exists>w r. r \<in> {''Subject'', ''Object'', ''IndirectObject'', ''Attr''} \<and>
            n = span_node env sent w r eid)"

text \<open>
  A span occurs in the sentence at index \<open>k\<close>; its first occurrence in the whole
  sentence is at index \<open>k\<close>.
\<close>

definition occurs_at :: "string \<Rightarrow> string \<Rightarrow> nat \<Rightarrow> bool" where
  "occurs_at sent w k = (k \<le> length sent \<and> take (length w) (drop k sent) = w)"

definition first_at :: "string \<Rightarrow> string \<Rightarrow> nat \<Rightarrow> bool" where
  "first_at sent w k = (occurs_at sent w k \<and> (\<forall>j<k. \<not> occurs_at sent w j))"

text \<open>
  The edge that links an argument node to its predicate node, by role: the subject
  points at the predicate with kind \<open>S-P\<close>, the predicate points at an object with
  kind \<open>P-O\<close>, and every other mapped role points at the predicate with kind \<open>attr\<close>.
\<close>

definition link_edge :: "string \<Rightarrow> string \<Rightarrow> string \<Rightarrow> Edge" where
  "link_edge role pred_id nid =
     (if role = ''Subject'' then \<lparr>source = nid, target = pred_id, kind = ''S-P''\<rparr>
      else if role = ''Object'' then \<lparr>source = pred_id, target = nid, kind = ''P-O''\<rparr>
      else \<lparr>source = nid, target = pred_id, kind = ''attr''\<rparr>)"

text \<open>
  The role table in the words of the specification: \<open>B-ARG0\<close> is the Subject,
  \<open>B-ARG1\<close> and \<open>B-ARG2\<close> the Object, a tag that starts with \<open>B-ARGM-LOC\<close> the
  IndirectObject, a tag that starts with \<open>B-ARGM-MNR\<close> the Attr, and any other tag
  has no role.
\<close>

definition role_table :: "string \<Rightarrow> string option" where
  "role_table tag =
     (if tag = ''B-ARG0'' then Some ''Subject''
      else if tag = ''B-ARG1'' \<or> tag = ''B-ARG2'' then Some ''Object''
      else if startswith tag ''B-ARGM-LOC'' then Some ''IndirectObject''
      else if startswith tag ''B-ARGM-MNR'' then Some ''Attr''
      else None)"

text \<open>
  The edges of one tagged word, of one frame numbered \<open>k\<close>, and of a frame list:
  a word without a role contributes nothing.
\<close>

fun arg_edges :: "string \<Rightarrow> string \<Rightarrow> string \<times> string \<Rightarrow> Edge list" where
  "arg_edges eid pred_id (w, tag) =
     (case role_table tag of
        None \<Rightarrow> []
      | Some role \<Rightarrow> [link_edge role pred_id (''spo:'' @ w @ ''@'' @ eid)])"

fun frame_edges :: "nat \<times> Frame \<Rightarrow> Edge list" where
  "frame_edges (k, fr) =
     concat (map (arg_edges (''e'' @ str_nat k) (''spo:'' @ verb fr @ ''@'' @ ''e'' @ str_nat k))
                 (zip (words fr) (tags fr)))"

definition assembled_edges :: "Frame list \<Rightarrow> Edge list" where
  "assembled_edges frames = concat (map frame_edges (zip [1 ..< Suc (length frames)] frames))"

text \<open>
  The node ids of one tagged word, of one frame numbered \<open>k\<close> (the predicate node
  first), and of a frame list: a word without a role contributes no id.
\<close>

fun arg_ids :: "string \<Rightarrow> string \<times> string \<Rightarrow> string list" where
  "arg_ids eid (w, tag) =
     (case role_table tag of
        None \<Rightarrow> []
      | Some role \<Rightarrow> [''spo:'' @ w @ ''@'' @ eid])"

fun frame_ids :: "nat \<times> Frame \<Rightarrow> string list" where
  "frame_ids (k, fr) =
     (''spo:'' @ verb fr @ ''@'' @ ''e'' @ str_nat k) #
     concat (map (arg_ids (''e'' @ str_nat k)) (zip (words fr) (tags fr)))"

definition assembled_ids :: "Frame list \<Rightarrow> string list" where
  "assembled_ids frames = concat (map frame_ids (zip [1 ..< Suc (length frames)] frames))"

text \<open>The node ids that a list of edges mentions.\<close>

definition endpoints :: "Edge list \<Rightarrow> string set" where
  "endpoints es = set (map source es) \<union> set (map target es)"

text \<open>The event ids carried by the nodes of a payload.\<close>

definition observed_eids :: "Payload \<Rightarrow> string list" where
  "observed_eids p = remdups (concat (map eid_set (nodes p)))"

section \<open>Sample inputs\<close>

text \<open>
  An environment for the worked examples: the digest is the MD5 of the sentence
  \<open>Hi\<close>, the only text hashed below; aliases are the lower-cased span; the encoder
  is not exercised.
\<close>

definition demo_env :: Env where
  "demo_env =
     \<lparr>md5_hexdigest = (\<lambda>s. ''c1a5298f939e87e8f962a5edfc206918''),
      resolve_alias = str_lower,
      filler_vec_from_token = (\<lambda>w. []),
      encode_chv = (\<lambda>ts. [])\<rparr>"

definition frame_met :: Frame where
  "frame_met =
     \<lparr>verb = ''met'', words = [''Ann'', ''met'', ''Bob'', ''in'', ''Rome''],
      tags = [''B-ARG0'', ''B-V'', ''B-ARG1'', ''O'', ''B-ARGM-LOC'']\<rparr>"

definition frame_go1 :: Frame where
  "frame_go1 =
     \<lparr>verb = ''go'', words = [''go'', ''and'', ''go''], tags = [''B-V'', ''O'', ''O'']\<rparr>"

definition frame_go2 :: Frame where
  "frame_go2 =
     \<lparr>verb = ''go'', words = [''go'', ''and'', ''go''], tags = [''O'', ''O'', ''B-V'']\<rparr>"

definition frame_absent :: Frame where
  "frame_absent = \<lparr>verb = ''be'', words = [''is''], tags = [''B-V'']\<rparr>"

section \<open>The rule-map stage: \<open>RuleMapStage.run\<close>\<close>

text \<open>
  The stage reads the context keys \<open>doc\<close>, \<open>frames\<close>, \<open>alias_map\<close> and
  \<open>may_need_stub\<close> (its declared \<open>requires\<close>) and writes \<open>tuples\<close> and a debug
  entry. A frame is a dictionary with the keys \<open>predicate\<close>, \<open>role\<close> and \<open>span\<close>;
  a tuple is a dictionary with the keys \<open>eid\<close>, \<open>role\<close>, \<open>span\<close> and, when an alias
  was found, \<open>alias_key\<close>.
\<close>

record RFrame =
  predicate :: string
  role :: string
  span :: string

record Tuple =
  tup_eid :: string
  tup_role :: string
  tup_span :: string
  tup_alias_key :: "string option"

record Ctx =
  ctx_doc :: string
  ctx_frames :: "RFrame list"
  ctx_alias_map :: "string \<rightharpoonup> string"
  ctx_may_need_stub :: bool

record Debug =
  n_predicates :: nat
  n_tuples :: nat
  stub_injected :: bool

text \<open>
  \<open>uuid.uuid4()\<close> is random. The run takes the identifiers it will draw as a
  parameter: \<open>gen k\<close> is \<open>str(uuid.uuid4())\<close> of the \<open>k\<close>-th call in the run, and the
  state counts the calls made so far. \<open>eid_of_pred\<close> is the dictionary of the run,
  kept in insertion order.
\<close>

fun get_eid ::
  "(nat \<Rightarrow> string) \<Rightarrow> string \<Rightarrow> (string \<times> string) list \<times> nat \<Rightarrow>
   string \<times> (string \<times> string) list \<times> nat" where
  "get_eid gen pred (eid_of_pred, k) =
     (case map_of eid_of_pred pred of
        None \<Rightarrow> (take 8 (gen k), eid_of_pred @ [(pred, take 8 (gen k))], Suc k)
      | Some e \<Rightarrow> (e, eid_of_pred, k))"

text \<open>The body of \<open>for fr in frames\<close>, on the state \<open>(tuples, eid_of_pred, calls)\<close>.\<close>

fun rule_step ::
  "(nat \<Rightarrow> string) \<Rightarrow> RFrame \<Rightarrow> Tuple list \<times> (string \<times> string) list \<times> nat \<Rightarrow>
   Tuple list \<times> (string \<times> string) list \<times> nat" where
  "rule_step gen fr (tuples, st) =
     (case get_eid gen (predicate fr) st of
        (e, st') \<Rightarrow>
          (tuples @ [\<lparr>tup_eid = e, tup_role = role fr, tup_span = str_strip (span fr),
                      tup_alias_key = None\<rparr>], st'))"

text \<open>
  The body of \<open>for tup in tuples\<close>: \<open>alias_map.get(surface)\<close> is attached when it is
  truthy, that is present and not the empty string.
\<close>

definition attach_alias :: "(string \<rightharpoonup> string) \<Rightarrow> Tuple \<Rightarrow> Tuple" where
  "attach_alias alias_map tup =
     (case alias_map (str_lower (tup_span tup)) of
        None \<Rightarrow> tup
      | Some alias \<Rightarrow> if alias \<noteq> [] then tup\<lparr>tup_alias_key := Some alias\<rparr> else tup)"

text \<open>
  \<open>run\<close> returns the value written to \<open>ctx.data["tuples"]\<close>, the debug entry and the
  number of \<open>uuid4\<close> calls made.
\<close>

definition run :: "(nat \<Rightarrow> string) \<Rightarrow> Ctx \<Rightarrow> Tuple list \<times> Debug \<times> nat" where
  "run gen ctx =
     (case fold (rule_step gen) (ctx_frames ctx) ([], [], 0) of
        (ts1, eid_of_pred, k1) \<Rightarrow>
          (case (if ctx_may_need_stub ctx \<and> ts1 = []
                 then (ts1 @ [\<lparr>tup_eid = take 8 (gen k1), tup_role = ''SentenceStub'',
                                 tup_span = ''[stub]'', tup_alias_key = None\<rparr>], Suc k1)
                 else (ts1, k1)) of
             (ts2, k2) \<Rightarrow>
               (map (attach_alias (ctx_alias_map ctx)) ts2,
                \<lparr>n_predicates = length eid_of_pred, n_tuples = length ts2,
                 stub_injected = (ctx_may_need_stub ctx \<and> ctx_frames ctx = [])\<rparr>,
                k2)))"

text \<open>
  The distinct elements of a list in the order of their first occurrence, and the
  position of an element in a list.
\<close>

definition first_seen :: "'a list \<Rightarrow> 'a list" where
  "first_seen xs = rev (remdups (rev xs))"

definition position :: "'a list \<Rightarrow> 'a \<Rightarrow> nat" where
  "position xs x = length (takeWhile (\<lambda>y. y \<noteq> x) xs)"

text \<open>
  The tuple appended for a frame, and the identifier of a predicate text in a run:
  the draws are numbered in the order in which the predicate texts first occur.
\<close>

definition frame_tuple :: "string \<Rightarrow> RFrame \<Rightarrow> Tuple" where
  "frame_tuple e fr =
     \<lparr>tup_eid = e, tup_role = role fr, tup_span = str_strip (span fr), tup_alias_key = None\<rparr>"

definition eid_for :: "(nat \<Rightarrow> string) \<Rightarrow> string list \<Rightarrow> string \<Rightarrow> string" where
  "eid_for gen preds p = take 8 (gen (position (first_seen preds) p))"

text \<open>Two runs of the stage that draw different identifiers, and a context without frames.\<close>

definition uuids_a :: "nat \<Rightarrow> string" where
  "uuids_a k =
     (if k = 0 then ''3b241101-e2bb-4255-8caf-4136c566a962''
      else if k = 1 then ''7c9e6679-7425-40de-944b-e07fc1f90ae7''
      else ''a8098c1a-f86e-41da-bcc1-504c0defe821'')"

definition uuids_b :: "nat \<Rightarrow> string" where
  "uuids_b k =
     (if k = 0 then ''0e37df36-f698-41e6-8dd4-cb9ced3df976''
      else if k = 1 then ''16fd2706-8baf-433b-82eb-8c7fada847da''
      else ''886313e1-3b8a-4372-9b90-0c9aee199e5d'')"

definition ctx_empty :: Ctx where
  "ctx_empty =
     \<lparr>ctx_doc = ''Hi'', ctx_frames = [], ctx_alias_map = Map.empty, ctx_may_need_stub = True\<rparr>"

definition ctx_twice :: Ctx where
  "ctx_twice =
     \<lparr>ctx_doc = ''go and go'',
      ctx_frames = [\<lparr>predicate = ''go'', role = ''V'', span = ''go''\<rparr>,
                    \<lparr>predicate = ''and'', role = ''V'', span = ''and''\<rparr>,
                    \<lparr>predicate = ''go'', role = ''V'', span = ''go ''\<rparr>],
      ctx_alias_map = Map.empty, ctx_may_need_stub = True\<rparr>"

section \<open>The payload schema \<open>chv_v24.json\<close>\<close>

text \<open>
  JSON documents. \<open>JInt\<close> is a number without fractional part and \<open>JFrac\<close> any
  other number; the schema only asks whether a number is an integer. An object is
  the list of its members, looked up by key.
\<close>

datatype json =
    JNull
  | JBool bool
  | JInt int
  | JFrac
  | JStr string
  | JArr "json list"
  | JObj "(string \<times> json) list"

datatype pathelem = Key string | Idx nat

type_synonym path = "pathelem list"

text \<open>
  The violations that the keywords of the schema can raise, with the path of the
  instance: \<open>type\<close>, \<open>required\<close>, \<open>enum\<close> and \<open>additionalProperties: false\<close>.
\<close>

datatype violation =
    WrongType path string
  | MissingRequired path string
  | NotInEnum path
  | AdditionalProperty path string

fun vpath :: "violation \<Rightarrow> path" where
  "vpath (WrongType p t) = p"
| "vpath (MissingRequired p k) = p"
| "vpath (NotInEnum p) = p"
| "vpath (AdditionalProperty p k) = p"

type_synonym checker = "path \<Rightarrow> json \<Rightarrow> violation list"

text \<open>The keywords, one function each.\<close>

definition check_required :: "string list \<Rightarrow> path \<Rightarrow> (string \<times> json) list \<Rightarrow> violation list" where
  "check_required req p kvs = map (MissingRequired p) (filter (\<lambda>k. k \<notin> fst ` set kvs) req)"

definition check_property :: "string \<Rightarrow> checker \<Rightarrow> path \<Rightarrow> (string \<times> json) list \<Rightarrow> violation list" where
  "check_property k chk p kvs =
     (case map_of kvs k of None \<Rightarrow> [] | Some v \<Rightarrow> chk (p @ [Key k]) v)"

definition check_additional :: "string list \<Rightarrow> path \<Rightarrow> (string \<times> json) list \<Rightarrow> violation list" where
  "check_additional known p kvs =
     map (AdditionalProperty p) (filter (\<lambda>k. k \<notin> set known) (map fst kvs))"

definition check_items :: "checker \<Rightarrow> path \<Rightarrow> json list \<Rightarrow> violation list" where
  "check_items chk p xs = concat (map (\<lambda>(i, x). chk (p @ [Idx i]) x) (enumerate 0 xs))"

definition check_enum :: "string list \<Rightarrow> checker" where
  "check_enum vals p j =
     (case j of JStr s \<Rightarrow> if s \<in> set vals then [] else [NotInEnum p] | _ \<Rightarrow> [NotInEnum p])"

text \<open>\<open>{"type": "string"}\<close>, \<open>{"type": "integer"}\<close> and an array of strings.\<close>

definition string_schema :: checker where
  "string_schema p j = (case j of JStr s \<Rightarrow> [] | _ \<Rightarrow> [WrongType p ''string''])"

definition integer_schema :: checker where
  "integer_schema p j = (case j of JInt i \<Rightarrow> [] | _ \<Rightarrow> [WrongType p ''integer''])"

definition string_array_schema :: checker where
  "string_array_schema p j =
     (case j of JArr xs \<Rightarrow> check_items string_schema p xs | _ \<Rightarrow> [WrongType p ''array''])"

definition ntype_enum :: "string list" where
  "ntype_enum = [''spo'', ''attr'', ''meta_out'', ''chv'', ''event'']"

definition kind_enum :: "string list" where
  "kind_enum = [''S-P'', ''P-O'', ''attr'', ''meta'', ''binder'', ''event-pred'', ''subevt'']"

text \<open>\<open>properties.nodes.items\<close>; \<open>additionalProperties\<close> is \<open>true\<close>.\<close>

definition node_schema :: checker where
  "node_schema p j =
     (case j of
        JObj kvs \<Rightarrow>
          check_required [''id'', ''filler'', ''roles'', ''eid_set'', ''ntype''] p kvs @
          check_property ''id'' string_schema p kvs @
          check_property ''filler'' string_schema p kvs @
          check_property ''alias_key'' string_schema p kvs @
          check_property ''roles'' string_array_schema p kvs @
          check_property ''eid_set'' string_array_schema p kvs @
          check_property ''ntype'' (\<lambda>q v. string_schema q v @ check_enum ntype_enum q v) p kvs @
          check_property ''char_start'' integer_schema p kvs @
          check_property ''char_end'' integer_schema p kvs
      | _ \<Rightarrow> [WrongType p ''object''])"

text \<open>\<open>properties.edges.items\<close>; \<open>additionalProperties\<close> is \<open>true\<close>.\<close>

definition edge_schema :: checker where
  "edge_schema p j =
     (case j of
        JObj kvs \<Rightarrow>
          check_required [''source'', ''target'', ''kind''] p kvs @
          check_property ''source'' string_schema p kvs @
          check_property ''target'' string_schema p kvs @
          check_property ''kind'' (\<lambda>q v. string_schema q v @ check_enum kind_enum q v) p kvs
      | _ \<Rightarrow> [WrongType p ''object''])"

text \<open>\<open>properties.layouts\<close> and the items of its \<open>hulls\<close>; both tolerate other keys.\<close>

definition hull_schema :: checker where
  "hull_schema p j =
     (case j of
        JObj kvs \<Rightarrow>
          check_required [''members''] p kvs @
          check_property ''eid'' string_schema p kvs @
          check_property ''members'' string_array_schema p kvs
      | _ \<Rightarrow> [WrongType p ''object''])"

definition layouts_schema :: checker where
  "layouts_schema p j =
     (case j of
        JObj kvs \<Rightarrow>
          check_property ''hulls''
            (\<lambda>q v. case v of JArr xs \<Rightarrow> check_items hull_schema q xs
                    | _ \<Rightarrow> [WrongType q ''array'']) p kvs
      | _ \<Rightarrow> [WrongType p ''object''])"

text \<open>
  The root of the schema: \<open>required\<close>, then \<open>properties\<close> in the order of the file,
  then \<open>additionalProperties: false\<close>.
\<close>

definition chv_v24 :: "json \<Rightarrow> violation list" where
  "chv_v24 j =
     (case j of
        JObj kvs \<Rightarrow>
          check_required [''version'', ''sentence'', ''nodes'', ''edges''] [] kvs @
          check_property ''version'' string_schema [] kvs @
          check_property ''sentence'' string_schema [] kvs @
          check_property ''nodes''
            (\<lambda>q v. case v of JArr xs \<Rightarrow> check_items node_schema q xs
                    | _ \<Rightarrow> [WrongType q ''array'']) [] kvs @
          check_property ''edges''
            (\<lambda>q v. case v of JArr xs \<Rightarrow> check_items edge_schema q xs
                    | _ \<Rightarrow> [WrongType q ''array'']) [] kvs @
          check_property ''layouts'' layouts_schema [] kvs @
          check_additional [''version'', ''sentence'', ''nodes'', ''edges'', ''layouts''] [] kvs
      | _ \<Rightarrow> [WrongType [] ''object''])"

definition schema_valid :: "json \<Rightarrow> bool" where
  "schema_valid j = (chv_v24 j = [])"

text \<open>
  Two notions for reasoning about the checkers: a violation lies at or below a
  path and is not an additional-property violation; a checker only raises such
  violations.
\<close>

definition below :: "path \<Rightarrow> violation \<Rightarrow> bool" where
  "below p v = (length p \<le> length (vpath v) \<and> (\<forall>q k. v \<noteq> AdditionalProperty q k))"

definition nested :: "checker \<Rightarrow> bool" where
  "nested chk = (\<forall>p j. \<forall>v\<in>set (chk p j). below p v)"

section \<open>The JSON document of a payload\<close>

text \<open>The models dumped field by field, in the order of their declaration.\<close>

definition node_json :: "Node \<Rightarrow> json" where
  "node_json n =
     JObj [(''id'', JStr (ident n)), (''filler'', JStr (filler n)),
           (''alias_key'', JStr (alias_key n)), (''roles'', JArr (map JStr (roles n))),
           (''ntype'', JStr (ntype n)), (''eid_set'', JArr (map JStr (eid_set n))),
           (''char_start'', JInt (char_start n)), (''char_end'', JInt (char_end n))]"

definition edge_json :: "Edge \<Rightarrow> json" where
  "edge_json e =
     JObj [(''source'', JStr (source e)), (''target'', JStr (target e)),
           (''kind'', JStr (kind e))]"

definition hull_json :: "Hull \<Rightarrow> json" where
  "hull_json h =
     JObj ((case hull_eid h of None \<Rightarrow> [] | Some e \<Rightarrow> [(''eid'', JStr e)]) @
           [(''members'', JArr (map JStr (members h)))])"

definition payload_json :: "Payload \<Rightarrow> json" where
  "payload_json p =
     JObj [(''version'', JStr (version p)), (''sentence'', JStr (sentence p)),
           (''nodes'', JArr (map node_json (nodes p))),
           (''edges'', JArr (map edge_json (edges p))),
           (''layouts'', JObj (map (\<lambda>(k, hs). (k, JArr (map hull_json hs))) (layouts p))),
           (''chv'', JArr (map JInt (chv p)))]"

section \<open>The validator entry point\<close>

text \<open>
  Modelled from the spec: the entries of the error list returned by
  \<open>validate_payload\<close> of \<open>hydraedge/schema/validator.py\<close>, which is not among the
  sources (only the schema it loads and a notebook that calls it are). The spec
  speaks of a schema error and of structural violations; an error naming a key as a
  required property is \<open>SchemaError (MissingRequired p k)\<close>.
\<close>

datatype report = SchemaError violation | VersionError | StructuralError string

text \<open>
  Modelled from the spec: what step 1 of \<open>validate_payload\<close>, which is not among the
  sources, can find wrong. Step 1 confirms the required top-level fields and a
  recognized version string and reports a schema error; the spec's Example 2 has it
  report a missing field of a node, so it is the check against the payload schema,
  followed by the version, where \<open>known\<close> is the list of recognized version strings.
\<close>

definition step1_errors :: "string list \<Rightarrow> json \<Rightarrow> report list" where
  "step1_errors known j =
     map SchemaError (chv_v24 j) @
     (case j of
        JObj kvs \<Rightarrow>
          (case map_of kvs ''version'' of
             Some (JStr v) \<Rightarrow> if v \<in> set known then [] else [VersionError]
           | _ \<Rightarrow> [])
      | _ \<Rightarrow> [])"

text \<open>
  Modelled from the spec: step 4 of \<open>validate_payload\<close>, which is not among the
  sources: count the nodes with \<open>ntype = chv\<close>; error unless exactly one.
\<close>

definition json_chv_nodes :: "json \<Rightarrow> json list" where
  "json_chv_nodes j =
     (case j of
        JObj kvs \<Rightarrow>
          (case map_of kvs ''nodes'' of
             Some (JArr ns) \<Rightarrow>
               filter (\<lambda>n. case n of
                             JObj fs \<Rightarrow> map_of fs ''ntype'' = Some (JStr ''chv'')
                           | _ \<Rightarrow> False) ns
           | _ \<Rightarrow> [])
      | _ \<Rightarrow> [])"

definition single_chv_errors :: "json \<Rightarrow> string list" where
  "single_chv_errors j =
     (if length (json_chv_nodes j) = 1 then [] else [''S6: exactly one CHV node required''])"

text \<open>
  Modelled from the spec: what the spec leaves open about \<open>validate_payload\<close>, which
  is not among the sources. When step 1 finds several things wrong, the spec says
  that a single schema error is returned and not which one: \<open>pick_error e es\<close>
  chooses it among the errors \<open>e # es\<close>. The structural checks of steps 2 and 3 and
  of steps 5 to 7 are not needed here and are taken as they come.
\<close>

record Validator =
  pick_error :: "report \<Rightarrow> report list \<Rightarrow> report"
  known_versions :: "string list"
  checks_2_3 :: "json \<Rightarrow> string list"
  checks_5_7 :: "json \<Rightarrow> string list"

text \<open>
  Modelled from the spec: \<open>validate_payload\<close> of \<open>hydraedge/schema/validator.py\<close>,
  which is not among the sources. The spec describes a function from a payload to a
  pair \<open>(ok, errors)\<close> that never raises. When step 1 fails it returns immediately
  with a single schema error; otherwise it accumulates every violation of the
  structural checks, in the order of the steps, and \<open>ok\<close> says that there is none.
\<close>

definition validate_payload :: "Validator \<Rightarrow> json \<Rightarrow> bool \<times> report list" where
  "validate_payload vp j =
     (case step1_errors (known_versions vp) j of
        e # es \<Rightarrow> (False, [pick_error vp e es])
      | [] \<Rightarrow>
          (let errs = map StructuralError
                        (checks_2_3 vp j @ single_chv_errors j @ checks_5_7 vp j)
           in (errs = [], errs)))"


text \<open>
  A validator for the worked examples: it reports the first error that step 1
  finds, recognizes the version \<open>2.4\<close>, and its other structural checks find nothing.
\<close>

definition demo_validator :: Validator where
  "demo_validator =
     \<lparr>pick_error = (\<lambda>e es. e), known_versions = [''2.4''],
      checks_2_3 = (\<lambda>j. []), checks_5_7 = (\<lambda>j. [])\<rparr>"

text \<open>Sample documents.\<close>

definition doc_min :: json where
  "doc_min =
     JObj [(''version'', JStr ''2.4''), (''sentence'', JStr ''Hi''),
           (''nodes'', JArr []), (''edges'', JArr [])]"

definition doc_layouts :: json where
  "doc_layouts =
     JObj [(''version'', JStr ''2.4''), (''sentence'', JStr ''Hi''),
           (''nodes'', JArr []), (''edges'', JArr []),
           (''layouts'', JObj [(''hulls'', JArr [])])]"

definition doc_chv :: json where
  "doc_chv =
     JObj [(''version'', JStr ''2.4''), (''sentence'', JStr ''Hi''),
           (''nodes'', JArr []), (''edges'', JArr []),
           (''chv'', JArr [JInt 1, JInt 0])]"

definition doc_extra_keys :: json where
  "doc_extra_keys =
     JObj [(''version'', JStr ''2.4''), (''sentence'', JStr ''Ann ran''),
           (''nodes'',
              JArr [JObj [(''id'', JStr ''spo:Ann@e1''), (''filler'', JStr ''Ann''),
                          (''roles'', JArr [JStr ''Subject'']),
                          (''eid_set'', JArr [JStr ''e1'']), (''ntype'', JStr ''spo''),
                          (''note'', JNull)],
                    JObj [(''id'', JStr ''spo:ran@e1''), (''filler'', JStr ''ran''),
                          (''roles'', JArr [JStr ''Predicate'']),
                          (''eid_set'', JArr [JStr ''e1'']), (''ntype'', JStr ''spo'')]]),
           (''edges'',
              JArr [JObj [(''source'', JStr ''spo:Ann@e1''), (''target'', JStr ''spo:ran@e1''),
                          (''kind'', JStr ''S-P''), (''weight'', JInt 1)]])]"





definition doc_one_chv :: json where
  "doc_one_chv =
     JObj [(''version'', JStr ''2.4''), (''sentence'', JStr ''Hi''),
           (''nodes'',
              JArr [JObj [(''id'', JStr ''chv:main''), (''filler'', JStr ''CHV''),
                          (''roles'', JArr [JStr ''CHV'']), (''eid_set'', JArr []),
                          (''ntype'', JStr ''chv'')]]),
           (''edges'', JArr [])]"

section \<open>The loops of \<open>to_json\<close>\<close>

lemma propbank_to_role_range:
  "propbank_to_role tag = Some r \<Longrightarrow>
   r \<in> {''Subject'', ''Object'', ''IndirectObject'', ''Attr''}"
  by (auto simp: propbank_to_role_def split: if_splits)

lemma arg_node_not_predicate: "arg_node env sent eid n \<Longrightarrow> \<not> predicate_node n"
  by (auto simp: arg_node_def predicate_node_def span_node_def)

lemma arg_step_nodes:
  "\<exists>added. fst (arg_step env sent eid pid wt (ns, es, ts)) = ns @ added \<and>
           (\<forall>n\<in>set added. arg_node env sent eid n)"
proof (cases wt)
  case (Pair w tag)
  show ?thesis
  proof (cases "propbank_to_role tag")
    case None
    with Pair show ?thesis by simp
  next
    case (Some r)
    have "arg_node env sent eid (span_node env sent w r eid)"
      unfolding arg_node_def using propbank_to_role_range [OF Some] by blast
    with Pair Some show ?thesis
      by (cases "''spo:'' @ w @ ''@'' @ eid \<in> ident ` set ns") (simp_all add: Let_def)
  qed
qed

lemma arg_loop_nodes:
  "\<exists>added. fst (fold (arg_step env sent eid pid) wts (ns, es, ts)) = ns @ added \<and>
           (\<forall>n\<in>set added. arg_node env sent eid n)"
proof (induction wts arbitrary: ns es ts)
  case Nil
  show ?case by simp
next
  case (Cons wt wts)
  obtain ns1 es1 ts1 where st: "arg_step env sent eid pid wt (ns, es, ts) = (ns1, es1, ts1)"
    by (cases "arg_step env sent eid pid wt (ns, es, ts)") auto
  from arg_step_nodes [of env sent eid pid wt ns es ts] st
  obtain a1 where a1: "ns1 = ns @ a1" "\<forall>n\<in>set a1. arg_node env sent eid n" by auto
  from Cons.IH [of ns1 es1 ts1]
  obtain a2 where a2: "fst (fold (arg_step env sent eid pid) wts (ns1, es1, ts1)) = ns1 @ a2"
    "\<forall>n\<in>set a2. arg_node env sent eid n" by auto
  have "fst (fold (arg_step env sent eid pid) (wt # wts) (ns, es, ts)) = ns @ (a1 @ a2)"
    using st a1 a2 by simp
  moreover have "\<forall>n\<in>set (a1 @ a2). arg_node env sent eid n" using a1 a2 by auto
  ultimately show ?case by blast
qed

lemma frame_step_nodes:
  "\<exists>added. fst (frame_step env sent fr (ns, es, ts, c)) =
             ns @ span_node env sent (verb fr) ''Predicate'' (''e'' @ str_nat c) # added \<and>
           (\<forall>n\<in>set added. arg_node env sent (''e'' @ str_nat c) n)"
proof -
  let ?eid = "''e'' @ str_nat c"
  let ?pid = "''spo:'' @ verb fr @ ''@'' @ ?eid"
  let ?ns1 = "ns @ [span_node env sent (verb fr) ''Predicate'' ?eid]"
  from arg_loop_nodes [of env sent ?eid ?pid "zip (words fr) (tags fr)" ?ns1 es ts]
  obtain added where
    a: "fst (fold (arg_step env sent ?eid ?pid) (zip (words fr) (tags fr)) (?ns1, es, ts)) =
        ?ns1 @ added"
    and b: "\<forall>n\<in>set added. arg_node env sent ?eid n" by blast
  have "fst (frame_step env sent fr (ns, es, ts, c)) =
        fst (fold (arg_step env sent ?eid ?pid) (zip (words fr) (tags fr)) (?ns1, es, ts))"
    by (simp add: Let_def split: prod.splits)
  with a b show ?thesis by auto
qed

lemma frame_step_counter:
  "snd (snd (snd (frame_step env sent fr (ns, es, ts, c)))) = Suc c"
  by (simp add: Let_def split: prod.splits)

lemma upt_step: "[c ..< c + Suc n] = c # [Suc c ..< Suc c + n]"
  using upt_rec [of c "c + Suc n"] by simp

lemma frame_loop_predicates:
  "filter predicate_node (fst (fold (frame_step env sent) frames (ns, es, ts, c))) =
   filter predicate_node ns @
   map (\<lambda>(k, fr). span_node env sent (verb fr) ''Predicate'' (''e'' @ str_nat k))
       (zip [c ..< c + length frames] frames)"
proof (induction frames arbitrary: ns es ts c)
  case Nil
  show ?case by simp
next
  case (Cons fr frames)
  obtain ns1 es1 ts1 c1 where st: "frame_step env sent fr (ns, es, ts, c) = (ns1, es1, ts1, c1)"
    by (cases "frame_step env sent fr (ns, es, ts, c)") auto
  from frame_step_nodes [of env sent fr ns es ts c] st
  obtain added where
    ns1: "ns1 = ns @ span_node env sent (verb fr) ''Predicate'' (''e'' @ str_nat c) # added"
    and added: "\<forall>n\<in>set added. arg_node env sent (''e'' @ str_nat c) n" by auto
  from frame_step_counter [of env sent fr ns es ts c] st have c1: "c1 = Suc c" by simp
  have f: "filter predicate_node added = []"
    using added by (auto simp: filter_empty_conv dest: arg_node_not_predicate)
  have p: "predicate_node (span_node env sent (verb fr) ''Predicate'' (''e'' @ str_nat c))"
    by (simp add: predicate_node_def span_node_def)
  have u: "[c ..< c + length (fr # frames)] = c # [Suc c ..< Suc c + length frames]"
    using upt_step [of c "length frames"] by simp
  show ?case
    unfolding u using st Cons.IH [of ns1 es1 ts1 c1] ns1 c1 f p by simp
qed

lemma frame_loop_nodes:
  "n \<in> set (fst (fold (frame_step env sent) frames (ns, es, ts, c))) \<Longrightarrow>
   n \<in> set ns \<or> (\<exists>w r eid. n = span_node env sent w r eid)"
proof (induction frames arbitrary: ns es ts c)
  case Nil
  then show ?case by simp
next
  case (Cons fr frames)
  obtain ns1 es1 ts1 c1 where st: "frame_step env sent fr (ns, es, ts, c) = (ns1, es1, ts1, c1)"
    by (cases "frame_step env sent fr (ns, es, ts, c)") auto
  from frame_step_nodes [of env sent fr ns es ts c] st
  obtain added where
    ns1: "ns1 = ns @ span_node env sent (verb fr) ''Predicate'' (''e'' @ str_nat c) # added"
    and added: "\<forall>n\<in>set added. arg_node env sent (''e'' @ str_nat c) n" by auto
  from Cons.prems st
  have "n \<in> set (fst (fold (frame_step env sent) frames (ns1, es1, ts1, c1)))" by simp
  from Cons.IH [OF this]
  have "n \<in> set ns1 \<or> (\<exists>w r eid. n = span_node env sent w r eid)" .
  then show ?case using ns1 added by (auto simp: arg_node_def)
qed

text \<open>The node list of the payload, by the two branches of \<open>to_json\<close>.\<close>

lemma nodes_to_json_stub: "nodes (to_json env sent []) = [stub_node env sent]"
  by (simp add: to_json_def)

lemma nodes_to_json_frames:
  "frames \<noteq> [] \<Longrightarrow>
   nodes (to_json env sent frames) = fst (fold (frame_step env sent) frames ([], [], [], 1))"
  by (simp add: to_json_def split: prod.splits)

lemma edges_to_json_stub: "edges (to_json env sent []) = []"
  by (simp add: to_json_def)

lemma edges_to_json_frames:
  "frames \<noteq> [] \<Longrightarrow>
   edges (to_json env sent frames) =
   fst (snd (fold (frame_step env sent) frames ([], [], [], 1)))"
  by (simp add: to_json_def split: prod.splits)

section \<open>\<open>str_find\<close> yields the first occurrence\<close>

text \<open>
  The result of \<open>str_find\<close> is \<open>-1\<close> exactly when the span starts nowhere in
  the text, and otherwise the least index at which it starts.
\<close>

lemma find_at_bounds:
  "find_at i s sub = - 1 \<or> (int i \<le> find_at i s sub \<and> find_at i s sub \<le> int i + int (length s))"
  by (induction s arbitrary: i) (auto, force+)

lemma find_at_miss:
  "find_at i s sub = - 1 \<Longrightarrow> j \<le> length s \<Longrightarrow> \<not> startswith (drop j s) sub"
proof (induction s arbitrary: i j)
  case Nil
  then show ?case by (auto simp: startswith_def split: if_splits)
next
  case (Cons c cs)
  then show ?case by (cases j) (auto split: if_splits)
qed

lemma find_at_hit:
  "find_at i s sub = int i + int k \<Longrightarrow>
   k \<le> length s \<and> startswith (drop k s) sub \<and> (\<forall>j<k. \<not> startswith (drop j s) sub)"
proof (induction s arbitrary: i k)
  case Nil
  then show ?case by (auto simp: startswith_def split: if_splits)
next
  case (Cons c cs)
  show ?case
  proof (cases "startswith (c # cs) sub")
    case True
    with Cons.prems show ?thesis by simp
  next
    case False
    with Cons.prems have f: "find_at (Suc i) cs sub = int i + int k" by simp
    from find_at_bounds [of "Suc i" cs sub] f have "k \<noteq> 0" by auto
    then obtain k' where k: "k = Suc k'" by (cases k) auto
    with f have "find_at (Suc i) cs sub = int (Suc i) + int k'" by simp
    from Cons.IH [OF this] False k show ?thesis
      by (auto simp: less_Suc_eq_0_disj)
  qed
qed

lemma str_find_absent:
  "str_find s sub = - 1 \<Longrightarrow> j \<le> length s \<Longrightarrow> \<not> startswith (drop j s) sub"
  unfolding str_find_def by (rule find_at_miss)

lemma str_find_first:
  "str_find s sub = int k \<Longrightarrow>
   k \<le> length s \<and> startswith (drop k s) sub \<and> (\<forall>j<k. \<not> startswith (drop j s) sub)"
  unfolding str_find_def using find_at_hit [of 0 s sub k] by simp

lemma str_find_range: "str_find s sub = - 1 \<or> (0 \<le> str_find s sub \<and> str_find s sub \<le> int (length s))"
  unfolding str_find_def using find_at_bounds [of 0 s sub] by simp


lemma first_at_str_find:
  assumes "first_at sent w k"
  shows "str_find sent w = int k"
proof -
  from assms have k: "k \<le> length sent" "startswith (drop k sent) w"
    and least: "\<And>j. j < k \<Longrightarrow> j \<le> length sent \<Longrightarrow> \<not> startswith (drop j sent) w"
    by (auto simp: first_at_def occurs_at_def startswith_def)
  have "str_find sent w \<noteq> - 1"
    using str_find_absent [of sent w k] k by blast
  with str_find_range [of sent w] obtain k' where k': "str_find sent w = int k'"
    by (metis nonneg_int_cases)
  from str_find_first [OF k']
  have f: "k' \<le> length sent" "startswith (drop k' sent) w"
    "\<And>j. j < k' \<Longrightarrow> \<not> startswith (drop j sent) w" by auto
  have "\<not> k' < k" using least [of k'] f(1,2) by blast
  moreover have "\<not> k < k'" using f(3) [of k] k(2) by blast
  ultimately have "k' = k" by simp
  with k' show ?thesis by simp
qed

section \<open>Properties of the assembled payload\<close>

text \<open>
  Claim C3, as amended: for every frame, in order, \<open>to_json\<close> creates one Predicate
  node whose filler is the frame's predicate span. When the span occurs in the
  sentence text, the node's \<open>char_start\<close> is the offset of the first occurrence of
  the span in the whole sentence and its \<open>char_end\<close> is \<open>char_start\<close> plus the length
  of the span. There is no running search cursor: a repeated predicate word gets
  the offsets of its first occurrence for every frame. The offsets of a span that
  does not occur in the sentence are no part of this statement.
\<close>

theorem to_json_predicate_offsets:
  "map filler (filter predicate_node (nodes (to_json env sent frames))) = map verb frames \<and>
   (\<forall>i k. i < length frames \<and> first_at sent (verb (frames ! i)) k \<longrightarrow>
      char_start (filter predicate_node (nodes (to_json env sent frames)) ! i) = int k \<and>
      char_end (filter predicate_node (nodes (to_json env sent frames)) ! i) =
        int k + int (length (verb (frames ! i))))"
proof (cases "frames = []")
  case True
  then show ?thesis
    by (simp add: nodes_to_json_stub stub_node_def predicate_node_def)
next
  case False
  let ?P = "filter predicate_node (nodes (to_json env sent frames))"
  let ?mk = "\<lambda>(k, fr). span_node env sent (verb fr) ''Predicate'' (''e'' @ str_nat k)"
  have e: "?P = map ?mk (zip [1 ..< 1 + length frames] frames)"
    unfolding nodes_to_json_frames [OF False] frame_loop_predicates
    by (simp only: filter.simps append_Nil)
  have len: "length (zip [1 ..< 1 + length frames] frames) = length frames"
    by (simp del: upt_Suc)
  have nth: "?P ! i = span_node env sent (verb (frames ! i)) ''Predicate'' (''e'' @ str_nat (1 + i))"
    if "i < length frames" for i
  proof -
    from that have "zip [1 ..< 1 + length frames] frames ! i = (1 + i, frames ! i)"
      by (simp add: nth_zip del: upt_Suc)
    with that len show ?thesis unfolding e by (simp del: upt_Suc)
  qed
  have lenP: "length ?P = length frames"
    unfolding e length_map by (rule len)
  have fill: "map filler ?P = map verb frames"
  proof (rule nth_equalityI)
    show "length (map filler ?P) = length (map verb frames)"
      by (simp only: length_map lenP)
  next
    fix i assume "i < length (map filler ?P)"
    then have i: "i < length frames" by (simp only: length_map lenP)
    then have "i < length ?P" by (simp only: lenP)
    with i show "map filler ?P ! i = map verb frames ! i"
      by (simp add: nth [OF i] span_node_def)
  qed
  have offs: "char_start (?P ! i) = int k \<and>
              char_end (?P ! i) = int k + int (length (verb (frames ! i)))"
    if "i < length frames" "first_at sent (verb (frames ! i)) k" for i k
    using first_at_str_find [OF that(2)] by (simp add: nth [OF that(1)] span_node_def)
  from fill offs show ?thesis by blast
qed

theorem to_json_predicate_offsets_witness:
  "(1::nat) < length [frame_go1, frame_go2] \<and>
   first_at ''go and go'' (verb ([frame_go1, frame_go2] ! 1)) 0 \<and>
   char_start (filter predicate_node
     (nodes (to_json demo_env ''go and go'' [frame_go1, frame_go2])) ! 1) = 0 \<and>
   char_end (filter predicate_node
     (nodes (to_json demo_env ''go and go'' [frame_go1, frame_go2])) ! 1) = 2"
proof -
  have h1: "(1::nat) < length [frame_go1, frame_go2]" by simp
  have h2: "first_at ''go and go'' (verb ([frame_go1, frame_go2] ! 1)) 0"
    by (simp add: first_at_def occurs_at_def frame_go2_def)
  have l: "int (length (verb ([frame_go1, frame_go2] ! 1))) = 2"
    by (simp add: frame_go2_def)
  from to_json_predicate_offsets [of demo_env "''go and go''" "[frame_go1, frame_go2]"] h1 h2
  have "char_start (filter predicate_node
          (nodes (to_json demo_env ''go and go'' [frame_go1, frame_go2])) ! 1) = int 0 \<and>
        char_end (filter predicate_node
          (nodes (to_json demo_env ''go and go'' [frame_go1, frame_go2])) ! 1) =
          int 0 + int (length (verb ([frame_go1, frame_go2] ! 1)))"
    by blast
  with h1 h2 l show ?thesis by simp
qed

text \<open>
  The claim as stated fails: in \<open>go and go\<close> the verb occurs at offsets 0 and 7, and
  the Predicate nodes of both frames get the offsets of the first occurrence.
\<close>

theorem to_json_cursor_counterexample:
  "map (\<lambda>n. (char_start n, char_end n))
       (filter predicate_node (nodes (to_json demo_env ''go and go'' [frame_go1, frame_go2]))) =
   [(0, 2), (0, 2)]"
  by (simp add: nodes_to_json_frames frame_go1_def frame_go2_def Let_def span_node_def
      propbank_to_role_def startswith_def predicate_node_def str_find_def)

text \<open>
  Claim C5, as amended: for every assembled payload, \<open>layouts\<close> is the dictionary
  with the single key \<open>hulls\<close> bound to the empty list; \<open>to_json\<close> collects no hull,
  whatever event ids the nodes carry.
\<close>

theorem to_json_hulls_empty: "layouts (to_json env sent frames) = [(''hulls'', [])]"
  by (simp add: to_json_def split: prod.splits)

text \<open>
  The claim as stated fails: the nodes assembled for one frame carry the event id
  \<open>e1\<close>, and the payload has no hull for it.
\<close>

theorem to_json_hulls_counterexample:
  "observed_eids (to_json demo_env ''Ann met Bob in Rome'' [frame_met]) = [''e1''] \<and>
   map_of (layouts (to_json demo_env ''Ann met Bob in Rome'' [frame_met])) ''hulls'' = Some []"
proof -
  have "map_of (layouts (to_json demo_env ''Ann met Bob in Rome'' [frame_met])) ''hulls'' =
        Some []"
    by (simp add: to_json_def split: prod.splits)
  moreover have "observed_eids (to_json demo_env ''Ann met Bob in Rome'' [frame_met]) = [''e1'']"
    by (simp add: observed_eids_def nodes_to_json_frames frame_met_def Let_def span_node_def
        propbank_to_role_def startswith_def str_nat.simps digit_char_def)
  ultimately show ?thesis by simp
qed

text \<open>
  Claim C7 at its failing inputs. For a sentence without frames the SentenceStub
  node keeps the defaults of \<open>Node\<close>, so both offsets are 0; for a span that does
  not occur in the sentence, \<open>char_start\<close> is \<open>-1\<close> and \<open>char_end\<close> is \<open>-1\<close> plus
  the length of the span. The claim asks for \<open>-1\<close> in both fields in both cases.
\<close>

theorem to_json_ungrounded_offsets:
  "map (\<lambda>n. (ntype n, char_start n, char_end n)) (nodes (to_json demo_env ''Hi'' [])) =
     [(''SentenceStub'', 0, 0)] \<and>
   map (\<lambda>n. (filler n, char_start n, char_end n))
       (nodes (to_json demo_env ''Ann is here'' [frame_absent])) = [(''be'', - 1, 1)]"
  by (simp add: nodes_to_json_stub stub_node_def nodes_to_json_frames frame_absent_def
      Let_def span_node_def propbank_to_role_def startswith_def str_find_def)

section \<open>Edges\<close>

lemma role_table_eq: "propbank_to_role tag = role_table tag"
  by (simp add: propbank_to_role_def role_table_def)

lemma startswith_iff: "startswith s p \<longleftrightarrow> (\<exists>rest. s = p @ rest)"
proof
  assume "startswith s p"
  then have "s = p @ drop (length p) s"
    unfolding startswith_def by (metis append_take_drop_id)
  then show "\<exists>rest. s = p @ rest" ..
next
  assume "\<exists>rest. s = p @ rest"
  then show "startswith s p" by (auto simp: startswith_def)
qed

lemma arg_step_edges:
  "fst (snd (arg_step env sent eid pid wt (ns, es, ts))) = es @ arg_edges eid pid wt"
proof (cases wt)
  case (Pair w tag)
  show ?thesis
  proof (cases "propbank_to_role tag")
    case None
    with Pair show ?thesis by (simp add: role_table_eq [symmetric])
  next
    case (Some r)
    from propbank_to_role_range [OF Some]
    have "r = ''Subject'' \<or> r = ''Object'' \<or> r = ''IndirectObject'' \<or> r = ''Attr''"
      by simp
    then show ?thesis
      using Pair Some
      by (auto simp: Let_def edge_kind_def link_edge_def role_table_eq [symmetric])
  qed
qed

lemma arg_loop_edges:
  "fst (snd (fold (arg_step env sent eid pid) wts (ns, es, ts))) =
   es @ concat (map (arg_edges eid pid) wts)"
proof (induction wts arbitrary: ns es ts)
  case Nil
  show ?case by simp
next
  case (Cons wt wts)
  obtain ns1 es1 ts1 where st: "arg_step env sent eid pid wt (ns, es, ts) = (ns1, es1, ts1)"
    by (cases "arg_step env sent eid pid wt (ns, es, ts)") auto
  from arg_step_edges [of env sent eid pid wt ns es ts] st
  have "es1 = es @ arg_edges eid pid wt" by simp
  with st Cons.IH [of ns1 es1 ts1] show ?case by simp
qed

lemma frame_step_edges:
  "fst (snd (frame_step env sent fr (ns, es, ts, c))) = es @ frame_edges (c, fr)"
proof -
  let ?eid = "''e'' @ str_nat c"
  let ?pid = "''spo:'' @ verb fr @ ''@'' @ ?eid"
  let ?ns1 = "ns @ [span_node env sent (verb fr) ''Predicate'' ?eid]"
  have "fst (snd (frame_step env sent fr (ns, es, ts, c))) =
        fst (snd (fold (arg_step env sent ?eid ?pid) (zip (words fr) (tags fr)) (?ns1, es, ts)))"
    by (simp add: Let_def split: prod.splits)
  then show ?thesis by (simp add: arg_loop_edges)
qed

lemma frame_loop_edges:
  "fst (snd (fold (frame_step env sent) frames (ns, es, ts, c))) =
   es @ concat (map frame_edges (zip [c ..< c + length frames] frames))"
proof (induction frames arbitrary: ns es ts c)
  case Nil
  show ?case by simp
next
  case (Cons fr frames)
  obtain ns1 es1 ts1 c1 where st: "frame_step env sent fr (ns, es, ts, c) = (ns1, es1, ts1, c1)"
    by (cases "frame_step env sent fr (ns, es, ts, c)") auto
  from frame_step_edges [of env sent fr ns es ts c] st
  have es1: "es1 = es @ frame_edges (c, fr)" by simp
  from frame_step_counter [of env sent fr ns es ts c] st have c1: "c1 = Suc c" by simp
  have u: "[c ..< c + length (fr # frames)] = c # [Suc c ..< Suc c + length frames]"
    using upt_step [of c "length frames"] by simp
  show ?case
    unfolding u using st Cons.IH [of ns1 es1 ts1 c1] es1 c1 by simp
qed

section \<open>Node ids\<close>

lemma arg_step_ids:
  "ident ` set (fst (arg_step env sent eid pid wt (ns, es, ts))) =
   ident ` set ns \<union> set (arg_ids eid wt)"
proof (cases wt)
  case (Pair w tag)
  show ?thesis
  proof (cases "propbank_to_role tag")
    case None
    with Pair show ?thesis by (simp add: role_table_eq [symmetric])
  next
    case (Some r)
    with Pair show ?thesis
      by (auto simp: Let_def span_node_def role_table_eq [symmetric])
  qed
qed

lemma arg_loop_ids:
  "ident ` set (fst (fold (arg_step env sent eid pid) wts (ns, es, ts))) =
   ident ` set ns \<union> set (concat (map (arg_ids eid) wts))"
proof (induction wts arbitrary: ns es ts)
  case Nil
  show ?case by simp
next
  case (Cons wt wts)
  obtain ns1 es1 ts1 where st: "arg_step env sent eid pid wt (ns, es, ts) = (ns1, es1, ts1)"
    by (cases "arg_step env sent eid pid wt (ns, es, ts)") auto
  from arg_step_ids [of env sent eid pid wt ns es ts] st
  have "ident ` set ns1 = ident ` set ns \<union> set (arg_ids eid wt)" by simp
  with st Cons.IH [of ns1 es1 ts1] show ?case by (simp add: Un_assoc)
qed

lemma frame_step_ids:
  "ident ` set (fst (frame_step env sent fr (ns, es, ts, c))) =
   ident ` set ns \<union> set (frame_ids (c, fr))"
proof -
  let ?eid = "''e'' @ str_nat c"
  let ?pid = "''spo:'' @ verb fr @ ''@'' @ ?eid"
  let ?ns1 = "ns @ [span_node env sent (verb fr) ''Predicate'' ?eid]"
  have "fst (frame_step env sent fr (ns, es, ts, c)) =
        fst (fold (arg_step env sent ?eid ?pid) (zip (words fr) (tags fr)) (?ns1, es, ts))"
    by (simp add: Let_def split: prod.splits)
  then show ?thesis
    by (simp add: arg_loop_ids span_node_def)
qed

lemma frame_loop_ids:
  "ident ` set (fst (fold (frame_step env sent) frames (ns, es, ts, c))) =
   ident ` set ns \<union> set (concat (map frame_ids (zip [c ..< c + length frames] frames)))"
proof (induction frames arbitrary: ns es ts c)
  case Nil
  show ?case by simp
next
  case (Cons fr frames)
  obtain ns1 es1 ts1 c1 where st: "frame_step env sent fr (ns, es, ts, c) = (ns1, es1, ts1, c1)"
    by (cases "frame_step env sent fr (ns, es, ts, c)") auto
  from frame_step_ids [of env sent fr ns es ts c] st
  have ns1: "ident ` set ns1 = ident ` set ns \<union> set (frame_ids (c, fr))" by simp
  from frame_step_counter [of env sent fr ns es ts c] st have c1: "c1 = Suc c" by simp
  have u: "[c ..< c + length (fr # frames)] = c # [Suc c ..< Suc c + length frames]"
    using upt_step [of c "length frames"] by simp
  show ?case
    unfolding u using st Cons.IH [of ns1 es1 ts1 c1] ns1 c1 by (simp add: Un_assoc)
qed

lemma endpoints_append: "endpoints (xs @ ys) = endpoints xs \<union> endpoints ys"
  by (auto simp: endpoints_def)

lemma endpoints_concat: "endpoints (concat xss) = (\<Union>xs\<in>set xss. endpoints xs)"
  by (induction xss) (simp_all add: endpoints_append, simp add: endpoints_def)

lemma endpoints_arg_edges:
  "endpoints (arg_edges eid pid wt) \<subseteq> insert pid (set (arg_ids eid wt))"
  by (cases wt) (auto simp: endpoints_def link_edge_def split: option.splits)

lemma endpoints_frame_edges: "endpoints (frame_edges kf) \<subseteq> set (frame_ids kf)"
proof (cases kf)
  case (Pair k fr)
  let ?eid = "''e'' @ str_nat k"
  let ?pid = "''spo:'' @ verb fr @ ''@'' @ ''e'' @ str_nat k"
  show ?thesis
  proof
    fix x assume "x \<in> endpoints (frame_edges kf)"
    with Pair obtain wt where wt: "wt \<in> set (zip (words fr) (tags fr))"
      and x: "x \<in> endpoints (arg_edges ?eid ?pid wt)"
      by (auto simp: endpoints_concat)
    from x endpoints_arg_edges [of ?eid ?pid wt]
    have "x = ?pid \<or> x \<in> set (arg_ids ?eid wt)" by blast
    with wt have "x \<in> set (frame_ids (k, fr))" by auto
    with Pair show "x \<in> set (frame_ids kf)" by simp
  qed
qed

lemma endpoints_assembled: "endpoints (assembled_edges frames) \<subseteq> set (assembled_ids frames)"
proof
  fix x assume "x \<in> endpoints (assembled_edges frames)"
  then obtain kf where kf: "kf \<in> set (zip [1 ..< Suc (length frames)] frames)"
    and x: "x \<in> endpoints (frame_edges kf)"
    unfolding assembled_edges_def endpoints_concat by (auto simp del: upt_Suc)
  from x endpoints_frame_edges [of kf] have "x \<in> set (frame_ids kf)" by blast
  with kf show "x \<in> set (assembled_ids frames)"
    unfolding assembled_ids_def by (auto simp del: upt_Suc)
qed

text \<open>
  Claim C4, as amended: the BIO tag is mapped to a role by the fixed table
  (\<open>B-ARG0\<close> to Subject; \<open>B-ARG1\<close> and \<open>B-ARG2\<close> to Object; a tag starting with
  \<open>B-ARGM-LOC\<close> to IndirectObject; a tag starting with \<open>B-ARGM-MNR\<close> to Attr; any
  other tag to no role, and its word is skipped: it adds no node and no edge).
  For every frame, numbered \<open>k\<close> from 1, and every tagged word with a role,
  \<open>to_json\<close> appends one edge between the argument node \<open>spo:word@ek\<close> and the
  predicate node \<open>spo:verb@ek\<close>, both nodes of the payload: kind \<open>S-P\<close> from the
  argument to the predicate for Subject, kind \<open>P-O\<close> from the predicate to the
  argument for Object, and kind \<open>attr\<close> from the argument to the predicate for
  IndirectObject and Attr.
\<close>

theorem to_json_edges:
  "(propbank_to_role tag = Some ''Subject'' \<longleftrightarrow> tag = ''B-ARG0'') \<and>
   (propbank_to_role tag = Some ''Object'' \<longleftrightarrow> tag = ''B-ARG1'' \<or> tag = ''B-ARG2'') \<and>
   (propbank_to_role tag = Some ''IndirectObject'' \<longleftrightarrow> (\<exists>rest. tag = ''B-ARGM-LOC'' @ rest)) \<and>
   (propbank_to_role tag = Some ''Attr'' \<longleftrightarrow> (\<exists>rest. tag = ''B-ARGM-MNR'' @ rest)) \<and>
   (propbank_to_role tag = None \<longleftrightarrow>
      tag \<noteq> ''B-ARG0'' \<and> tag \<noteq> ''B-ARG1'' \<and> tag \<noteq> ''B-ARG2'' \<and>
      (\<nexists>rest. tag = ''B-ARGM-LOC'' @ rest) \<and> (\<nexists>rest. tag = ''B-ARGM-MNR'' @ rest)) \<and>
   propbank_to_role tag = role_table tag \<and>
   edges (to_json env sent frames) = assembled_edges frames \<and>
   ident ` set (nodes (to_json env sent frames)) =
     (if frames = [] then {ident (stub_node env sent)} else set (assembled_ids frames)) \<and>
   endpoints (edges (to_json env sent frames)) \<subseteq> ident ` set (nodes (to_json env sent frames)) \<and>
   link_edge ''Subject'' p a = \<lparr>source = a, target = p, kind = ''S-P''\<rparr> \<and>
   link_edge ''Object'' p a = \<lparr>source = p, target = a, kind = ''P-O''\<rparr> \<and>
   link_edge ''IndirectObject'' p a = \<lparr>source = a, target = p, kind = ''attr''\<rparr> \<and>
   link_edge ''Attr'' p a = \<lparr>source = a, target = p, kind = ''attr''\<rparr>"
proof -
  have loc: "startswith tag ''B-ARGM-LOC'' \<longleftrightarrow> (\<exists>rest. tag = ''B-ARGM-LOC'' @ rest)"
    by (rule startswith_iff)
  have mnr: "startswith tag ''B-ARGM-MNR'' \<longleftrightarrow> (\<exists>rest. tag = ''B-ARGM-MNR'' @ rest)"
    by (rule startswith_iff)
  have t1: "propbank_to_role tag = Some ''Subject'' \<longleftrightarrow> tag = ''B-ARG0''"
    by (auto simp: propbank_to_role_def)
  have t2: "propbank_to_role tag = Some ''Object'' \<longleftrightarrow> tag = ''B-ARG1'' \<or> tag = ''B-ARG2''"
    by (auto simp: propbank_to_role_def)
  have t3: "propbank_to_role tag = Some ''IndirectObject'' \<longleftrightarrow>
            (\<exists>rest. tag = ''B-ARGM-LOC'' @ rest)"
    unfolding loc [symmetric] by (auto simp: propbank_to_role_def startswith_def)
  have t4: "propbank_to_role tag = Some ''Attr'' \<longleftrightarrow> (\<exists>rest. tag = ''B-ARGM-MNR'' @ rest)"
    unfolding mnr [symmetric] by (auto simp: propbank_to_role_def startswith_def)
  have t5: "propbank_to_role tag = None \<longleftrightarrow>
      tag \<noteq> ''B-ARG0'' \<and> tag \<noteq> ''B-ARG1'' \<and> tag \<noteq> ''B-ARG2'' \<and>
      (\<nexists>rest. tag = ''B-ARGM-LOC'' @ rest) \<and> (\<nexists>rest. tag = ''B-ARGM-MNR'' @ rest)"
    unfolding loc [symmetric] mnr [symmetric] by (auto simp: propbank_to_role_def)
  have e: "edges (to_json env sent frames) = assembled_edges frames"
  proof (cases "frames = []")
    case True
    then show ?thesis by (simp add: edges_to_json_stub assembled_edges_def)
  next
    case False
    have "edges (to_json env sent frames) =
          [] @ concat (map frame_edges (zip [1 ..< 1 + length frames] frames))"
      unfolding edges_to_json_frames [OF False] by (rule frame_loop_edges)
    then show ?thesis by (simp add: assembled_edges_def)
  qed
  have i: "ident ` set (nodes (to_json env sent frames)) =
     (if frames = [] then {ident (stub_node env sent)} else set (assembled_ids frames))"
  proof (cases "frames = []")
    case True
    then show ?thesis by (simp add: nodes_to_json_stub)
  next
    case False
    have "ident ` set (nodes (to_json env sent frames)) =
          ident ` set ([] :: Node list) \<union>
          set (concat (map frame_ids (zip [1 ..< 1 + length frames] frames)))"
      unfolding nodes_to_json_frames [OF False] by (rule frame_loop_ids)
    with False show ?thesis by (simp add: assembled_ids_def)
  qed
  have n: "endpoints (edges (to_json env sent frames)) \<subseteq>
           ident ` set (nodes (to_json env sent frames))"
  proof (cases "frames = []")
    case True
    then show ?thesis by (simp add: edges_to_json_stub endpoints_def)
  next
    case False
    with e i endpoints_assembled [of frames] show ?thesis by simp
  qed
  have l: "link_edge ''Subject'' p a = \<lparr>source = a, target = p, kind = ''S-P''\<rparr>"
    "link_edge ''Object'' p a = \<lparr>source = p, target = a, kind = ''P-O''\<rparr>"
    "link_edge ''IndirectObject'' p a = \<lparr>source = a, target = p, kind = ''attr''\<rparr>"
    "link_edge ''Attr'' p a = \<lparr>source = a, target = p, kind = ''attr''\<rparr>"
    by (simp_all add: link_edge_def)
  note r = role_table_eq [of tag]
  show ?thesis
    by (intro conjI) (fact t1 t2 t3 t4 t5 r e i n l)+
qed

text \<open>
  The claim as stated fails: the word tagged \<open>B-ARGM-LOC\<close> (role IndirectObject) is
  linked to the predicate by an edge of kind \<open>attr\<close>, not \<open>P-O\<close>.
\<close>

theorem to_json_edge_kind_counterexample:
  "propbank_to_role ''B-ARGM-LOC'' = Some ''IndirectObject'' \<and>
   edges (to_json demo_env ''Ann met Bob in Rome'' [frame_met]) =
     [\<lparr>source = ''spo:Ann@e1'', target = ''spo:met@e1'', kind = ''S-P''\<rparr>,
      \<lparr>source = ''spo:met@e1'', target = ''spo:Bob@e1'', kind = ''P-O''\<rparr>,
      \<lparr>source = ''spo:Rome@e1'', target = ''spo:met@e1'', kind = ''attr''\<rparr>]"
  by (simp add: edges_to_json_frames frame_met_def Let_def span_node_def edge_kind_def
      propbank_to_role_def startswith_def str_nat.simps digit_char_def)

section \<open>The loop of the rule-map stage\<close>

lemma first_seen_snoc:
  "first_seen (xs @ [x]) = (if x \<in> set xs then first_seen xs else first_seen xs @ [x])"
  by (simp add: first_seen_def)

lemma set_first_seen: "set (first_seen xs) = set xs"
  by (simp add: first_seen_def)

lemma position_append_in: "x \<in> set xs \<Longrightarrow> position (xs @ ys) x = position xs x"
  by (induction xs) (auto simp: position_def)

lemma position_snoc_new: "x \<notin> set xs \<Longrightarrow> position (xs @ [x]) x = length xs"
  by (induction xs) (auto simp: position_def)

lemma map_of_keyed:
  "map_of (map (\<lambda>p. (p, F p)) xs) p = (if p \<in> set xs then Some (F p) else None)"
  by (induction xs) auto

lemma rule_loop:
  "fold (rule_step gen) fs ([], [], 0) =
     (map (\<lambda>fr. frame_tuple (eid_for gen (map predicate fs) (predicate fr)) fr) fs,
      map (\<lambda>p. (p, eid_for gen (map predicate fs) p)) (first_seen (map predicate fs)),
      length (first_seen (map predicate fs)))"
proof (induction fs rule: rev_induct)
  case Nil
  show ?case by (simp add: first_seen_def)
next
  case (snoc fr fs)
  let ?ps = "map predicate fs"
  let ?p = "predicate fr"
  have mp: "map predicate (fs @ [fr]) = ?ps @ [?p]" by simp
  show ?case
  proof (cases "?p \<in> set ?ps")
    case True
    then have fs: "first_seen (?ps @ [?p]) = first_seen ?ps"
      by (simp add: first_seen_snoc)
    have e: "eid_for gen (?ps @ [?p]) = eid_for gen ?ps"
      by (rule ext) (simp add: eid_for_def fs)
    from True have m: "map_of (map (\<lambda>p. (p, eid_for gen ?ps p)) (first_seen ?ps)) ?p =
        Some (eid_for gen ?ps ?p)"
      by (simp add: map_of_keyed set_first_seen)
    show ?thesis
      unfolding mp e fs using snoc.IH m by (simp add: frame_tuple_def)
  next
    case False
    then have fs: "first_seen (?ps @ [?p]) = first_seen ?ps @ [?p]"
      by (simp add: first_seen_snoc)
    from False have m: "map_of (map (\<lambda>p. (p, eid_for gen ?ps p)) (first_seen ?ps)) ?p = None"
      by (simp add: map_of_keyed set_first_seen)
    have old: "eid_for gen (?ps @ [?p]) q = eid_for gen ?ps q" if "q \<in> set ?ps" for q
      using that unfolding eid_for_def fs by (simp add: position_append_in set_first_seen)
    have new: "eid_for gen (?ps @ [?p]) ?p = take 8 (gen (length (first_seen ?ps)))"
      using False unfolding eid_for_def fs by (simp add: position_snoc_new set_first_seen)
    have t: "map (\<lambda>fr'. frame_tuple (eid_for gen (?ps @ [?p]) (predicate fr')) fr') fs =
             map (\<lambda>fr'. frame_tuple (eid_for gen ?ps (predicate fr')) fr') fs"
      by (rule map_cong) (simp_all add: old)
    have a: "map (\<lambda>p. (p, eid_for gen (?ps @ [?p]) p)) (first_seen ?ps) =
             map (\<lambda>p. (p, eid_for gen ?ps p)) (first_seen ?ps)"
      by (rule map_cong) (simp_all add: old set_first_seen)
    have "fold (rule_step gen) (fs @ [fr]) ([], [], 0) =
          (map (\<lambda>fr'. frame_tuple (eid_for gen ?ps (predicate fr')) fr') fs @
             [frame_tuple (take 8 (gen (length (first_seen ?ps)))) fr],
           map (\<lambda>p. (p, eid_for gen ?ps p)) (first_seen ?ps) @
             [(?p, take 8 (gen (length (first_seen ?ps))))],
           Suc (length (first_seen ?ps)))"
      using snoc.IH m by (simp add: frame_tuple_def)
    also have "\<dots> =
          (map (\<lambda>fr'. frame_tuple (eid_for gen (?ps @ [?p]) (predicate fr')) fr') (fs @ [fr]),
           map (\<lambda>p. (p, eid_for gen (?ps @ [?p]) p)) (first_seen (?ps @ [?p])),
           length (first_seen (?ps @ [?p])))"
      unfolding fs by (simp add: t a new)
    finally show ?thesis unfolding mp .
  qed
qed


lemma attach_alias_fields:
  "tup_eid (attach_alias am t) = tup_eid t"
  "tup_role (attach_alias am t) = tup_role t"
  "tup_span (attach_alias am t) = tup_span t"
  by (simp_all add: attach_alias_def split: option.splits)

lemma run_tuples:
  "fst (run gen ctx) =
     map (attach_alias (ctx_alias_map ctx))
       (if ctx_may_need_stub ctx \<and> ctx_frames ctx = []
        then [\<lparr>tup_eid = take 8 (gen 0), tup_role = ''SentenceStub'', tup_span = ''[stub]'',
               tup_alias_key = None\<rparr>]
        else map (\<lambda>fr. frame_tuple (eid_for gen (map predicate (ctx_frames ctx)) (predicate fr)) fr)
                 (ctx_frames ctx))"
  by (simp add: run_def rule_loop first_seen_def)

lemma run_debug:
  "fst (snd (run gen ctx)) =
     \<lparr>n_predicates = length (first_seen (map predicate (ctx_frames ctx))),
      n_tuples = (if ctx_may_need_stub ctx \<and> ctx_frames ctx = [] then 1
                  else length (ctx_frames ctx)),
      stub_injected = (ctx_may_need_stub ctx \<and> ctx_frames ctx = [])\<rparr>"
  by (simp add: run_def rule_loop)

lemma run_calls:
  "snd (snd (run gen ctx)) =
     length (first_seen (map predicate (ctx_frames ctx))) +
     (if ctx_may_need_stub ctx \<and> ctx_frames ctx = [] then 1 else 0)"
  by (simp add: run_def rule_loop)

section \<open>Placeholder and event identifiers\<close>

text \<open>
  Claim C2, as amended. In \<open>to_json\<close>, for every sentence for which zero frames
  were produced (there is no stub-allowed flag), exactly one SentenceStub node is
  synthesized and no edge; its id is \<open>stub:\<close> followed by the first six hex digits
  of the MD5 digest of the sentence text, hence the same for the same text. In
  \<open>RuleMapStage.run\<close>, when no frame was produced, exactly one placeholder tuple is
  synthesized if \<open>may_need_stub\<close> is set and none otherwise; its id is the first
  eight characters of a fresh \<open>uuid4\<close>, not derived from the sentence text.
\<close>

theorem stub_placeholder:
  "nodes (to_json env sent []) = [stub_node env sent] \<and>
   ident (stub_node env sent) = ''stub:'' @ take 6 (md5_hexdigest env sent) \<and>
   roles (stub_node env sent) = [''Sentence''] \<and>
   edges (to_json env sent []) = [] \<and>
   map (\<lambda>t. (tup_eid t, tup_role t, tup_span t))
       (fst (run gen \<lparr>ctx_doc = d, ctx_frames = [], ctx_alias_map = am,
                      ctx_may_need_stub = flag\<rparr>)) =
     (if flag then [(take 8 (gen 0), ''SentenceStub'', ''[stub]'')] else [])"
  by (simp add: nodes_to_json_stub edges_to_json_stub stub_node_def run_tuples
      attach_alias_fields)

text \<open>
  The claim as stated fails for the placeholder tuple: two runs of the stage on the
  same context draw different identifiers.
\<close>

theorem stub_tuple_id_counterexample:
  "map tup_eid (fst (run uuids_a ctx_empty)) = [''3b241101''] \<and>
   map tup_eid (fst (run uuids_b ctx_empty)) = [''0e37df36'']"
  by (simp add: run_tuples ctx_empty_def attach_alias_fields uuids_a_def uuids_b_def)

text \<open>
  Claim C6, as amended: in \<open>RuleMapStage.run\<close>, for every ordered list of frames
  of one run, two frames whose predicate text is the same receive the same event
  id; a fresh identifier (the first eight characters of a new \<open>uuid4\<close>) is drawn
  exactly when a predicate text is seen for the first time, so the number of draws
  is the number of distinct predicate texts, and it is reused for every later frame
  with the same text.
\<close>

theorem run_event_ids:
  "map tup_eid (take (length (ctx_frames ctx)) (fst (run gen ctx))) =
     map (\<lambda>fr. eid_for gen (map predicate (ctx_frames ctx)) (predicate fr)) (ctx_frames ctx) \<and>
   n_predicates (fst (snd (run gen ctx))) =
     length (first_seen (map predicate (ctx_frames ctx))) \<and>
   (\<forall>i j. i < length (ctx_frames ctx) \<and> j < length (ctx_frames ctx) \<and>
          predicate (ctx_frames ctx ! i) = predicate (ctx_frames ctx ! j) \<longrightarrow>
          tup_eid (fst (run gen ctx) ! i) = tup_eid (fst (run gen ctx) ! j))"
proof -
  let ?fs = "ctx_frames ctx"
  let ?e = "\<lambda>fr. eid_for gen (map predicate ?fs) (predicate fr)"
  have eids: "map tup_eid (take (length ?fs) (fst (run gen ctx))) = map ?e ?fs"
    by (simp add: run_tuples attach_alias_fields frame_tuple_def comp_def)
  have nth: "tup_eid (fst (run gen ctx) ! i) = ?e (?fs ! i)" if "i < length ?fs" for i
  proof -
    from that have "?fs \<noteq> []" by auto
    with that show ?thesis
      by (simp add: run_tuples attach_alias_fields frame_tuple_def)
  qed
  have "tup_eid (fst (run gen ctx) ! i) = tup_eid (fst (run gen ctx) ! j)"
    if "i < length ?fs" "j < length ?fs" "predicate (?fs ! i) = predicate (?fs ! j)" for i j
    using that by (simp add: nth)
  with eids show ?thesis by (simp add: run_debug)
qed

theorem run_event_ids_witness:
  "0 < length (ctx_frames ctx_twice) \<and> 2 < length (ctx_frames ctx_twice) \<and>
   predicate (ctx_frames ctx_twice ! 0) = predicate (ctx_frames ctx_twice ! 2) \<and>
   tup_eid (fst (run uuids_a ctx_twice) ! 0) = tup_eid (fst (run uuids_a ctx_twice) ! 2) \<and>
   n_predicates (fst (snd (run uuids_a ctx_twice))) = 2"
proof -
  have h: "0 < length (ctx_frames ctx_twice) \<and> 2 < length (ctx_frames ctx_twice) \<and>
           predicate (ctx_frames ctx_twice ! 0) = predicate (ctx_frames ctx_twice ! 2)"
    by (simp add: ctx_twice_def)
  have d: "length (first_seen (map predicate (ctx_frames ctx_twice))) = 2"
    by (simp add: ctx_twice_def first_seen_def)
  from run_event_ids [of ctx_twice uuids_a] h d show ?thesis by metis
qed

text \<open>
  The claim as stated fails in \<open>to_json\<close>, which numbers the frames instead: two
  frames with the same predicate text receive the event ids \<open>e1\<close> and \<open>e2\<close>.
\<close>

theorem to_json_event_id_counterexample:
  "verb frame_go1 = verb frame_go2 \<and>
   map eid_set (filter predicate_node
     (nodes (to_json demo_env ''go and go'' [frame_go1, frame_go2]))) = [[''e1''], [''e2'']]"
  by (simp add: nodes_to_json_frames frame_go1_def frame_go2_def Let_def span_node_def
      propbank_to_role_def startswith_def predicate_node_def str_nat.simps digit_char_def)

section \<open>Violations of the payload schema\<close>

lemma below_longer: "below (p @ q) v \<Longrightarrow> below p v"
  by (simp add: below_def)

lemma nested_string: "nested string_schema"
  by (auto simp: nested_def below_def string_schema_def split: json.splits)

lemma nested_integer: "nested integer_schema"
  by (auto simp: nested_def below_def integer_schema_def split: json.splits)

lemma nested_enum: "nested (check_enum vals)"
  by (auto simp: nested_def below_def check_enum_def split: json.splits)

lemma nested_both: "nested f \<Longrightarrow> nested g \<Longrightarrow> nested (\<lambda>q v. f q v @ g q v)"
  by (auto simp: nested_def)

lemma check_items_below:
  assumes "nested chk" and "v \<in> set (check_items chk p xs)"
  shows "below p v"
proof -
  from assms(2) obtain i x where "v \<in> set (chk (p @ [Idx i]) x)"
    by (auto simp: check_items_def)
  with assms(1) have "below (p @ [Idx i]) v" by (auto simp: nested_def)
  then show ?thesis by (rule below_longer)
qed

lemma below_wrong_type: "below p (WrongType p t)"
  by (simp add: below_def)

lemma nested_array:
  assumes "nested chk"
  shows "nested (\<lambda>q v. case v of JArr xs \<Rightarrow> check_items chk q xs | _ \<Rightarrow> [WrongType q ''array''])"
proof (unfold nested_def, intro allI ballI)
  fix p j v
  assume "v \<in> set (case j of JArr xs \<Rightarrow> check_items chk p xs | _ \<Rightarrow> [WrongType p ''array''])"
  then show "below p v"
    by (cases j) (auto simp: below_wrong_type dest: check_items_below [OF assms])
qed

lemma check_property_below:
  assumes "nested chk" and "v \<in> set (check_property k chk p kvs)"
  shows "below (p @ [Key k]) v"
  using assms by (auto simp: check_property_def nested_def split: option.splits)

lemma check_required_below: "v \<in> set (check_required req p kvs) \<Longrightarrow> below p v"
  by (auto simp: check_required_def below_def)

lemma nested_string_array: "nested string_array_schema"
  using nested_array [OF nested_string] by (simp add: string_array_schema_def [abs_def])

lemma object_below:
  assumes "\<And>kvs v. v \<in> set (f kvs) \<Longrightarrow> below p v"
  shows "v \<in> set (case j of JObj kvs \<Rightarrow> f kvs | _ \<Rightarrow> [WrongType p ''object'']) \<Longrightarrow> below p v"
  by (cases j) (auto simp: below_wrong_type dest: assms)

lemma property_below:
  "nested chk \<Longrightarrow> v \<in> set (check_property k chk p kvs) \<Longrightarrow> below p v"
  by (rule below_longer) (rule check_property_below)

lemma nested_node: "nested node_schema"
  unfolding nested_def node_schema_def
proof (intro allI ballI)
  fix p j v
  assume "v \<in> set (case j of
        JObj kvs \<Rightarrow>
          check_required [''id'', ''filler'', ''roles'', ''eid_set'', ''ntype''] p kvs @
          check_property ''id'' string_schema p kvs @
          check_property ''filler'' string_schema p kvs @
          check_property ''alias_key'' string_schema p kvs @
          check_property ''roles'' string_array_schema p kvs @
          check_property ''eid_set'' string_array_schema p kvs @
          check_property ''ntype'' (\<lambda>q v. string_schema q v @ check_enum ntype_enum q v) p kvs @
          check_property ''char_start'' integer_schema p kvs @
          check_property ''char_end'' integer_schema p kvs
      | _ \<Rightarrow> [WrongType p ''object''])"
  then show "below p v"
    by (rule object_below [rotated])
       (auto dest: check_required_below property_below [OF nested_string]
          property_below [OF nested_string_array] property_below [OF nested_integer]
          property_below [OF nested_both [OF nested_string nested_enum]])
qed

lemma nested_edge: "nested edge_schema"
  unfolding nested_def edge_schema_def
proof (intro allI ballI)
  fix p j v
  assume "v \<in> set (case j of
        JObj kvs \<Rightarrow>
          check_required [''source'', ''target'', ''kind''] p kvs @
          check_property ''source'' string_schema p kvs @
          check_property ''target'' string_schema p kvs @
          check_property ''kind'' (\<lambda>q v. string_schema q v @ check_enum kind_enum q v) p kvs
      | _ \<Rightarrow> [WrongType p ''object''])"
  then show "below p v"
    by (rule object_below [rotated])
       (auto dest: check_required_below property_below [OF nested_string]
          property_below [OF nested_both [OF nested_string nested_enum]])
qed

lemma nested_hull: "nested hull_schema"
  unfolding nested_def hull_schema_def
proof (intro allI ballI)
  fix p j v
  assume "v \<in> set (case j of
        JObj kvs \<Rightarrow>
          check_required [''members''] p kvs @
          check_property ''eid'' string_schema p kvs @
          check_property ''members'' string_array_schema p kvs
      | _ \<Rightarrow> [WrongType p ''object''])"
  then show "below p v"
    by (rule object_below [rotated])
       (auto dest: check_required_below property_below [OF nested_string]
          property_below [OF nested_string_array])
qed

lemma nested_layouts: "nested layouts_schema"
  unfolding nested_def layouts_schema_def
proof (intro allI ballI)
  fix p j v
  assume "v \<in> set (case j of
        JObj kvs \<Rightarrow>
          check_property ''hulls''
            (\<lambda>q v. case v of JArr xs \<Rightarrow> check_items hull_schema q xs
                    | _ \<Rightarrow> [WrongType q ''array'']) p kvs
      | _ \<Rightarrow> [WrongType p ''object''])"
  then show "below p v"
    by (rule object_below [rotated])
       (auto dest: property_below [OF nested_array [OF nested_hull]])
qed

lemma below_key: "below ([] @ [Key k]) v \<Longrightarrow> vpath v \<noteq> [] \<and> (\<forall>q k'. v \<noteq> AdditionalProperty q k')"
  by (auto simp: below_def)

lemma chv_v24_cases:
  assumes "v \<in> set (chv_v24 (JObj kvs))"
  shows "v \<in> set (check_required [''version'', ''sentence'', ''nodes'', ''edges''] [] kvs) \<or>
         v \<in> set (check_additional [''version'', ''sentence'', ''nodes'', ''edges'', ''layouts''] [] kvs) \<or>
         (vpath v \<noteq> [] \<and> (\<forall>q k. v \<noteq> AdditionalProperty q k))"
proof -
  from assms consider
      "v \<in> set (check_required [''version'', ''sentence'', ''nodes'', ''edges''] [] kvs)"
    | "v \<in> set (check_additional [''version'', ''sentence'', ''nodes'', ''edges'', ''layouts''] [] kvs)"
    | "v \<in> set (check_property ''version'' string_schema [] kvs)"
    | "v \<in> set (check_property ''sentence'' string_schema [] kvs)"
    | "v \<in> set (check_property ''nodes''
            (\<lambda>q v. case v of JArr xs \<Rightarrow> check_items node_schema q xs
                    | _ \<Rightarrow> [WrongType q ''array'']) [] kvs)"
    | "v \<in> set (check_property ''edges''
            (\<lambda>q v. case v of JArr xs \<Rightarrow> check_items edge_schema q xs
                    | _ \<Rightarrow> [WrongType q ''array'']) [] kvs)"
    | "v \<in> set (check_property ''layouts'' layouts_schema [] kvs)"
    by (auto simp: chv_v24_def)
  then show ?thesis
  proof cases
    case 1 then show ?thesis by simp
  next
    case 2 then show ?thesis by simp
  next
    case 3
    from check_property_below [OF nested_string this] show ?thesis
      by (blast dest: below_key)
  next
    case 4
    from check_property_below [OF nested_string this] show ?thesis
      by (blast dest: below_key)
  next
    case 5
    from check_property_below [OF nested_array [OF nested_node] this] show ?thesis
      by (blast dest: below_key)
  next
    case 6
    from check_property_below [OF nested_array [OF nested_edge] this] show ?thesis
      by (blast dest: below_key)
  next
    case 7
    from check_property_below [OF nested_layouts this] show ?thesis
      by (blast dest: below_key)
  qed
qed

lemma in_check_required:
  "v \<in> set (check_required req p kvs) \<longleftrightarrow>
   (\<exists>k. v = MissingRequired p k \<and> k \<in> set req \<and> k \<notin> fst ` set kvs)"
  by (auto simp: check_required_def)

lemma in_check_additional:
  "v \<in> set (check_additional known p kvs) \<longleftrightarrow>
   (\<exists>k. v = AdditionalProperty p k \<and> k \<in> fst ` set kvs \<and> k \<notin> set known)"
  by (auto simp: check_additional_def)

lemma chv_v24_required:
  "v \<in> set (check_required [''version'', ''sentence'', ''nodes'', ''edges''] [] kvs) \<Longrightarrow>
   v \<in> set (chv_v24 (JObj kvs))"
  by (simp add: chv_v24_def)

lemma chv_v24_additional:
  "v \<in> set (check_additional [''version'', ''sentence'', ''nodes'', ''edges'', ''layouts''] [] kvs) \<Longrightarrow>
   v \<in> set (chv_v24 (JObj kvs))"
  by (simp add: chv_v24_def)

lemma required_iff:
  "MissingRequired [] k \<in> set (chv_v24 (JObj kvs)) \<longleftrightarrow>
   k \<in> set [''version'', ''sentence'', ''nodes'', ''edges''] \<and> k \<notin> fst ` set kvs"
proof
  assume "MissingRequired [] k \<in> set (chv_v24 (JObj kvs))"
  from chv_v24_cases [OF this]
  show "k \<in> set [''version'', ''sentence'', ''nodes'', ''edges''] \<and> k \<notin> fst ` set kvs"
    unfolding in_check_required in_check_additional by auto
next
  assume "k \<in> set [''version'', ''sentence'', ''nodes'', ''edges''] \<and> k \<notin> fst ` set kvs"
  then have "MissingRequired [] k \<in>
      set (check_required [''version'', ''sentence'', ''nodes'', ''edges''] [] kvs)"
    unfolding in_check_required by blast
  then show "MissingRequired [] k \<in> set (chv_v24 (JObj kvs))" by (rule chv_v24_required)
qed

lemma additional_iff:
  "AdditionalProperty p k \<in> set (chv_v24 (JObj kvs)) \<longleftrightarrow>
   p = [] \<and> k \<in> fst ` set kvs \<and>
   k \<notin> set [''version'', ''sentence'', ''nodes'', ''edges'', ''layouts'']"
proof
  assume "AdditionalProperty p k \<in> set (chv_v24 (JObj kvs))"
  from chv_v24_cases [OF this]
  show "p = [] \<and> k \<in> fst ` set kvs \<and>
        k \<notin> set [''version'', ''sentence'', ''nodes'', ''edges'', ''layouts'']"
    unfolding in_check_required in_check_additional by auto
next
  assume a: "p = [] \<and> k \<in> fst ` set kvs \<and>
             k \<notin> set [''version'', ''sentence'', ''nodes'', ''edges'', ''layouts'']"
  then have "AdditionalProperty [] k \<in>
      set (check_additional [''version'', ''sentence'', ''nodes'', ''edges'', ''layouts''] [] kvs)"
    unfolding in_check_additional by blast
  then have "AdditionalProperty [] k \<in> set (chv_v24 (JObj kvs))" by (rule chv_v24_additional)
  with a show "AdditionalProperty p k \<in> set (chv_v24 (JObj kvs))" by simp
qed




section \<open>Schema validation of payloads\<close>

text \<open>
  Claim C8: for every sentence for which the frame source returns zero frames, the
  single node that \<open>to_json\<close> places in the payload carries the \<open>ntype\<close>
  \<open>SentenceStub\<close>, which is not one of the five values of the schema's \<open>ntype\<close>
  enum, so the stub-only payload violates the schema at that field and fails schema
  validation.
\<close>

theorem stub_payload_fails_schema:
  "nodes (to_json env sent []) = [stub_node env sent] \<and>
   ntype (stub_node env sent) = ''SentenceStub'' \<and>
   ''SentenceStub'' \<notin> set ntype_enum \<and>
   NotInEnum [Key ''nodes'', Idx 0, Key ''ntype''] \<in>
     set (chv_v24 (payload_json (to_json env sent []))) \<and>
   \<not> schema_valid (payload_json (to_json env sent []))"
proof -
  have v: "NotInEnum [Key ''nodes'', Idx 0, Key ''ntype''] \<in>
           set (chv_v24 (payload_json (to_json env sent [])))"
    by (simp add: chv_v24_def payload_json_def nodes_to_json_stub check_property_def
        check_items_def node_schema_def node_json_def stub_node_def check_enum_def
        ntype_enum_def string_schema_def)
  then have "chv_v24 (payload_json (to_json env sent [])) \<noteq> []" by auto
  with v show ?thesis
    by (simp add: schema_valid_def nodes_to_json_stub stub_node_def ntype_enum_def)
qed




text \<open>
  Claim C10, as amended: the payload schema requires exactly the top-level keys
  \<open>version\<close>, \<open>sentence\<close>, \<open>nodes\<close> and \<open>edges\<close>, with \<open>layouts\<close> optional; it
  rejects any payload containing another top-level key, and \<open>chv\<close> is such a key;
  it raises no additional-property violation below the top level, so unknown keys
  inside node and edge objects are tolerated.
\<close>

theorem schema_top_level_keys:
  "(MissingRequired [] k \<in> set (chv_v24 (JObj kvs)) \<longleftrightarrow>
      k \<in> set [''version'', ''sentence'', ''nodes'', ''edges''] \<and> k \<notin> fst ` set kvs) \<and>
   (AdditionalProperty p k \<in> set (chv_v24 (JObj kvs)) \<longleftrightarrow>
      p = [] \<and> k \<in> fst ` set kvs \<and>
      k \<notin> set [''version'', ''sentence'', ''nodes'', ''edges'', ''layouts'']) \<and>
   schema_valid doc_min \<and> schema_valid doc_layouts \<and> schema_valid doc_extra_keys \<and>
   chv_v24 doc_chv = [AdditionalProperty [] ''chv'']"
proof -
  have "schema_valid doc_min"
    by (simp add: schema_valid_def chv_v24_def doc_min_def check_required_def
        check_property_def check_additional_def check_items_def string_schema_def)
  moreover have "schema_valid doc_layouts"
    by (simp add: schema_valid_def chv_v24_def doc_layouts_def check_required_def
        check_property_def check_additional_def check_items_def string_schema_def
        layouts_schema_def)
  moreover have "schema_valid doc_extra_keys"
    by (simp add: schema_valid_def chv_v24_def doc_extra_keys_def check_required_def
        check_property_def check_additional_def check_items_def string_schema_def
        node_schema_def edge_schema_def string_array_schema_def check_enum_def
        ntype_enum_def kind_enum_def integer_schema_def)
  moreover have "chv_v24 doc_chv = [AdditionalProperty [] ''chv'']"
    by (simp add: chv_v24_def doc_chv_def check_required_def check_property_def
        check_additional_def check_items_def string_schema_def)
  ultimately show ?thesis
    using required_iff [of k kvs] additional_iff [of p k kvs] by blast
qed

text \<open>
  The claim as stated fails: a payload that is valid without the key \<open>chv\<close> is
  rejected once it carries it, so \<open>chv\<close> is not an optional top-level key.
\<close>

theorem schema_chv_counterexample:
  "schema_valid doc_min \<and> \<not> schema_valid doc_chv \<and>
   chv_v24 doc_chv = [AdditionalProperty [] ''chv'']"
  by (simp add: schema_valid_def chv_v24_def doc_min_def doc_chv_def check_required_def
      check_property_def check_additional_def check_items_def string_schema_def)

section \<open>The anchor node\<close>

lemma json_chv_nodes_payload: "json_chv_nodes (payload_json p) = map node_json (chv_nodes p)"
  by (simp add: json_chv_nodes_def payload_json_def chv_nodes_def filter_map comp_def
      node_json_def)

lemma accepted_single_chv:
  assumes "fst (validate_payload vp j)"
  shows "length (json_chv_nodes j) = 1"
proof (cases "step1_errors (known_versions vp) j")
  case Nil
  with assms have "single_chv_errors j = []"
    by (simp add: validate_payload_def Let_def)
  then show ?thesis by (simp add: single_chv_errors_def split: if_splits)
next
  case (Cons e es)
  with assms show ?thesis by (simp add: validate_payload_def)
qed

lemma map_const_replicate: "(\<And>x. x \<in> set xs \<Longrightarrow> f x = c) \<Longrightarrow> map f xs = replicate (length xs) c"
  by (induction xs) auto

text \<open>
  Claim C1, as amended: no payload produced by \<open>to_json\<close> contains a node with
  \<open>ntype = chv\<close>, for every input sentence and every list of frames: the assembler
  never constructs the chv anchor node; its nodes are \<open>spo\<close>-typed, or the single
  \<open>SentenceStub\<close>-typed node when there is no frame. An accepted payload always has
  exactly one chv-typed node, so no payload produced by \<open>to_json\<close> is accepted as it
  stands.
\<close>

theorem to_json_no_chv_node:
  "chv_nodes (to_json env sent frames) = [] \<and>
   map ntype (nodes (to_json env sent frames)) =
     (if frames = [] then [''SentenceStub'']
      else replicate (length (nodes (to_json env sent frames))) ''spo'') \<and>
   (fst (validate_payload vp j) \<longrightarrow> length (json_chv_nodes j) = 1) \<and>
   \<not> fst (validate_payload vp (payload_json (to_json env sent frames)))"
proof -
  have types: "map ntype (nodes (to_json env sent frames)) =
     (if frames = [] then [''SentenceStub'']
      else replicate (length (nodes (to_json env sent frames))) ''spo'')"
  proof (cases "frames = []")
    case True
    then show ?thesis by (simp add: nodes_to_json_stub stub_node_def)
  next
    case False
    have "ntype n = ''spo''" if "n \<in> set (nodes (to_json env sent frames))" for n
    proof -
      from that False
      have "n \<in> set (fst (fold (frame_step env sent) frames ([], [], [], 1)))"
        by (simp add: nodes_to_json_frames)
      from frame_loop_nodes [OF this] show ?thesis by (auto simp: span_node_def)
    qed
    then have "map ntype (nodes (to_json env sent frames)) =
               replicate (length (nodes (to_json env sent frames))) ''spo''"
      by (rule map_const_replicate)
    with False show ?thesis by simp
  qed
  have "ntype n \<noteq> ''chv''" if "n \<in> set (nodes (to_json env sent frames))" for n
  proof -
    from that have "ntype n \<in> set (map ntype (nodes (to_json env sent frames)))" by simp
    then show ?thesis unfolding types by (auto split: if_splits)
  qed
  then have none: "chv_nodes (to_json env sent frames) = []"
    by (simp add: chv_nodes_def filter_empty_conv)
  have "\<not> fst (validate_payload vp (payload_json (to_json env sent frames)))"
  proof
    assume "fst (validate_payload vp (payload_json (to_json env sent frames)))"
    from accepted_single_chv [OF this] none show False
      by (simp add: json_chv_nodes_payload)
  qed
  with none types accepted_single_chv [of vp j] show ?thesis by blast
qed

theorem to_json_no_chv_node_witness:
  "fst (validate_payload demo_validator doc_one_chv) \<and>
   length (json_chv_nodes doc_one_chv) = 1"
proof -
  have "fst (validate_payload demo_validator doc_one_chv)"
    by (simp add: validate_payload_def step1_errors_def demo_validator_def doc_one_chv_def
        chv_v24_def check_required_def check_property_def check_additional_def
        check_items_def string_schema_def node_schema_def string_array_schema_def
        check_enum_def ntype_enum_def integer_schema_def single_chv_errors_def
        json_chv_nodes_def)
  with to_json_no_chv_node [of demo_env "''Hi''" "[]" demo_validator doc_one_chv]
  show ?thesis by blast
qed

text \<open>
  The claim as stated fails: the payload assembled for one ordinary frame has no
  \<open>chv\<close> node at all, so it does not have exactly one.
\<close>

theorem to_json_chv_count_counterexample:
  "length (chv_nodes (to_json demo_env ''Ann met Bob in Rome'' [frame_met])) \<noteq> 1"
  by (simp add: chv_nodes_def nodes_to_json_frames frame_met_def Let_def span_node_def
      propbank_to_role_def startswith_def)


end
